theory Spec2Isabelle
  imports Main "HOL-Library.AList" "HOL-Library.Char_ord" "HOL-Library.List_Lexorder"
begin

section \<open>The orchestration engine of \<^verbatim>\<open>src/core/system_orchestrator_enhanced.py\<close>\<close>

text \<open>
  The theory embeds the class \<^verbatim>\<open>EnhancedSystemOrchestrator\<close>: the component registry
  \<^verbatim>\<open>self.components\<close>, the running map \<^verbatim>\<open>self.processes\<close>, the dependency resolver
  \<^verbatim>\<open>get_startup_order\<close>, the supervisor primitives \<^verbatim>\<open>start_component\<close>,
  \<^verbatim>\<open>stop_component\<close>, \<^verbatim>\<open>restart_component\<close>, the health check and the three control
  loops \<^verbatim>\<open>start_all\<close>, \<^verbatim>\<open>stop_all\<close>, \<^verbatim>\<open>monitor_loop\<close>.

  Everything the operating system decides (whether a script exists, whether \<^verbatim>\<open>Popen\<close>
  raises, whether a process is alive when polled, whether a port answers, the order in which
  a Python \<^verbatim>\<open>set\<close> of strings iterates) is an explicit input, the record \<open>env\<close>.
\<close>

subsection \<open>Data model\<close>

text \<open>
  One entry of \<^verbatim>\<open>self.components\<close>. The source reads the optional keys with
  \<^verbatim>\<open>.get(key, default)\<close>; a field holds the value after that default has been applied
  (\<^verbatim>\<open>dependencies\<close>: \<^verbatim>\<open>[]\<close>, \<^verbatim>\<open>critical\<close>: \<^verbatim>\<open>False\<close>, \<^verbatim>\<open>restart_policy\<close>: \<^verbatim>\<open>'manual'\<close>,
  \<^verbatim>\<open>startup_delay\<close>: \<^verbatim>\<open>0\<close>, \<^verbatim>\<open>optional\<close>: \<^verbatim>\<open>False\<close>). \<^verbatim>\<open>port\<close> and
  \<^verbatim>\<open>health_endpoint\<close> are tested with \<^verbatim>\<open>in\<close>, so they are options. The restart policy stays
  the string the source compares.
\<close>

record component =
  script :: string
  port :: "int option"
  health_endpoint :: "string option"
  dependencies :: "string list"
  critical :: bool
  restart_policy :: string
  startup_delay :: int
  optional :: bool

text \<open>\<^verbatim>\<open>self.components\<close>: a dict, here an association list read with \<open>map_of\<close>.\<close>

type_synonym registry = "(string \<times> component) list"

text \<open>
  One value of \<^verbatim>\<open>self.processes\<close>. The \<^verbatim>\<open>Popen\<close> handle is opaque: what \<^verbatim>\<open>poll\<close>,
  \<^verbatim>\<open>terminate\<close>, \<^verbatim>\<open>wait\<close> and \<^verbatim>\<open>kill\<close> do with it is read from \<open>env\<close>;
  \<^verbatim>\<open>start_time\<close> is only printed by the status report.
\<close>

record process_info =
  restart_count :: nat
  component_info :: component

text \<open>What \<^verbatim>\<open>subprocess.Popen\<close> and the \<^verbatim>\<open>poll\<close> after the startup delay give.\<close>

datatype spawn_result = Popen_raises | Exits_during_delay | Alive_after_delay

text \<open>What \<^verbatim>\<open>terminate\<close>, \<^verbatim>\<open>wait(timeout=10)\<close>, \<^verbatim>\<open>kill\<close>, \<^verbatim>\<open>wait\<close> give.\<close>

datatype stop_result = Terminate_raises | Exits_in_time | Killed_after_timeout | Kill_raises

text \<open>
  The last field is what \<^verbatim>\<open>time.sleep\<close> does with a number of seconds: it raises
  \<^verbatim>\<open>OverflowError\<close> when the number is beyond what the platform's timer can hold.
\<close>

record env =
  script_exists :: "string \<Rightarrow> bool"
  hash_slot :: "string \<Rightarrow> nat"
  popen :: "string \<Rightarrow> spawn_result"
  dep_alive :: "string \<Rightarrow> string \<Rightarrow> bool"
  terminate :: "string \<Rightarrow> stop_result"
  poll_alive :: "string \<Rightarrow> bool"
  port_open :: "string \<Rightarrow> bool"
  http_ok :: "string \<Rightarrow> bool"
  sleep_raises :: "int \<Rightarrow> bool"

text \<open>The lines the source logs or prints, one constructor for each message.\<close>

datatype event =
    Info_optional_not_found string
  | Error_circular_or_missing "string list"
  | Info_startup_order "string list"
  | Print_starting string
  | Print_waiting int
  | Print_critical_abort string
  | Print_failed_to_start "string list"
  | Print_startup_completed
  | Warn_already_running string
  | Error_unknown_component string
  | Error_script_not_found string
  | Warn_dependency_not_running string string
  | Warn_dependency_stopped string string
  | Error_dependencies_not_met string
  | Info_starting_component string
  | Info_waiting string int
  | Info_started string
  | Error_failed_to_start string
  | Error_starting string
  | Warn_not_running string
  | Info_stopping string
  | Warn_force_killing string
  | Info_stopped string
  | Error_stopping string
  | Print_stopping_all
  | Print_all_stopped
  | Print_restarting string
  | Warn_health_check_failed string
  | Info_auto_restart_always string
  | Info_auto_restart_on_failure string nat
  | Error_restart_limit string
  | Critical_alert "string list"
  | Error_monitoring_loop

text \<open>
  The orchestrator's mutable state: \<^verbatim>\<open>self.processes\<close> (a dict, whose key order is the
  order of insertion), \<^verbatim>\<open>self.running\<close>, and the lines written so far.
\<close>

record orch =
  processes :: "(string \<times> process_info) list"
  running :: bool
  log :: "event list"

definition say :: "event list \<Rightarrow> orch \<Rightarrow> orch" where
  "say evs st = st\<lparr>log := log st @ evs\<rparr>"

definition init_orch :: orch where
  "init_orch = \<lparr>processes = [], running = True, log = []\<rparr>"

subsection \<open>Dependency resolver\<close>

text \<open>
  \<^verbatim>\<open>self.components[c].get('dependencies', [])\<close> and \<^verbatim>\<open>.get('startup_delay', 0)\<close>. The
  resolver only asks for names it took from the registry's keys; for any other name the
  source would raise \<^verbatim>\<open>KeyError\<close>.
\<close>

definition deps_of :: "registry \<Rightarrow> string \<Rightarrow> string list" where
  "deps_of reg c = (case map_of reg c of None \<Rightarrow> [] | Some cfg \<Rightarrow> dependencies cfg)"

definition delay_of :: "registry \<Rightarrow> string \<Rightarrow> int" where
  "delay_of reg c = (case map_of reg c of None \<Rightarrow> 0 | Some cfg \<Rightarrow> startup_delay cfg)"

text \<open>
  \<^verbatim>\<open>remaining = set(self.components.keys())\<close>. Python leaves the iteration order of a set
  open; CPython walks the hash table by slot, and removing an element does not move the
  others. The set is kept as the duplicate-free list of its elements in iteration order,
  the slot of each name being the environment's \<open>hash_slot\<close>.
\<close>

definition set_iteration :: "env \<Rightarrow> string list \<Rightarrow> string list" where
  "set_iteration e xs = sort_key (hash_slot e) (remdups xs)"

text \<open>Lines 279-286: an optional component whose script does not exist is removed.\<close>

definition excluded :: "env \<Rightarrow> registry \<Rightarrow> string \<Rightarrow> bool" where
  "excluded e reg c =
     (case map_of reg c of
        None \<Rightarrow> False
      | Some cfg \<Rightarrow> optional cfg \<and> \<not> script_exists e (script cfg))"

definition active_components :: "env \<Rightarrow> registry \<Rightarrow> string list" where
  "active_components e reg =
     filter (\<lambda>c. \<not> excluded e reg c) (set_iteration e (map fst reg))"

text \<open>Lines 290-294: \<^verbatim>\<open>all(dep in ordered or dep not in remaining for dep in deps)\<close>.\<close>

definition is_ready :: "registry \<Rightarrow> string list \<Rightarrow> string list \<Rightarrow> string \<Rightarrow> bool" where
  "is_ready reg ordered remaining c =
     list_all (\<lambda>dep. dep \<in> set ordered \<or> dep \<notin> set remaining) (deps_of reg c)"

text \<open>Lines 290-302: the ready list in iteration order, then Python's stable sort by delay.\<close>

definition ready_batch :: "registry \<Rightarrow> string list \<Rightarrow> string list \<Rightarrow> string list" where
  "ready_batch reg ordered remaining =
     sort_key (delay_of reg) (filter (is_ready reg ordered remaining) remaining)"

text \<open>
  Lines 288-308, the \<^verbatim>\<open>while remaining\<close> loop. The result is \<^verbatim>\<open>ordered\<close> together with
  what is left of \<^verbatim>\<open>remaining\<close> when the loop ends: empty after a normal exit, and the set
  written by \<^verbatim>\<open>log_error\<close> after the \<^verbatim>\<open>break\<close>.
\<close>

function resolve_loop :: "registry \<Rightarrow> string list \<Rightarrow> string list \<Rightarrow> string list \<times> string list"
  where
  "resolve_loop reg ordered remaining =
     (if remaining = [] then (ordered, [])
      else
        let ready = ready_batch reg ordered remaining in
        if ready = [] then (ordered, remaining)
        else resolve_loop reg (ordered @ ready) (filter (\<lambda>c. c \<notin> set ready) remaining))"
  by pat_completeness auto
termination
proof (relation "measure (\<lambda>(reg, ordered, remaining). length remaining)")
  show "wf (measure (\<lambda>(reg, ordered, remaining). length remaining))"
    by simp
next
  fix reg :: registry and ordered remaining ready :: "string list"
  assume ne: "remaining \<noteq> []"
    and r: "ready = ready_batch reg ordered remaining"
    and rne: "ready \<noteq> []"
  from rne obtain c where c: "c \<in> set ready"
    by (cases ready) auto
  with r have "c \<in> set remaining"
    by (simp add: ready_batch_def)
  with c have "length (filter (\<lambda>c. c \<notin> set ready) remaining) < length remaining"
    by (intro length_filter_less) auto
  then show "((reg, ordered @ ready, filter (\<lambda>c. c \<notin> set ready) remaining),
              (reg, ordered, remaining)) \<in> measure (\<lambda>(reg, ordered, remaining). length remaining)"
    by simp
qed

declare resolve_loop.simps [simp del]

definition resolve :: "env \<Rightarrow> registry \<Rightarrow> string list \<times> string list" where
  "resolve e reg = resolve_loop reg [] (active_components e reg)"


text \<open>
  \<^verbatim>\<open>get_startup_order\<close>, lines 274-308: it returns \<^verbatim>\<open>ordered\<close> and writes one line for each
  optional component it skips and, after the \<^verbatim>\<open>break\<close>, the error line with \<^verbatim>\<open>remaining\<close>.
  Nothing is raised on either path.
\<close>

definition get_startup_order :: "env \<Rightarrow> registry \<Rightarrow> orch \<Rightarrow> string list \<times> orch" where
  "get_startup_order e reg st =
     (let skipped = filter (excluded e reg) (set_iteration e (map fst reg));
          (ordered, unresolved) = resolve e reg
      in (ordered,
          say (map Info_optional_not_found skipped
               @ (if unresolved = [] then [] else [Error_circular_or_missing unresolved])) st))"

subsection \<open>Process supervisor\<close>

text \<open>
  \<^verbatim>\<open>check_component_dependencies\<close>, lines 257-272: the loop over the declared
  dependencies; the first one that is not in \<^verbatim>\<open>self.processes\<close>, or whose process has
  exited, ends it with \<^verbatim>\<open>False\<close>.
\<close>

fun check_deps :: "env \<Rightarrow> orch \<Rightarrow> string \<Rightarrow> string list \<Rightarrow> bool \<times> orch" where
  "check_deps e st name [] = (True, st)"
| "check_deps e st name (dep # deps) =
     (if map_of (processes st) dep = None
      then (False, say [Warn_dependency_not_running dep name] st)
      else if \<not> dep_alive e name dep
      then (False, say [Warn_dependency_stopped dep name] st)
      else check_deps e st name deps)"

definition check_component_dependencies ::
  "env \<Rightarrow> registry \<Rightarrow> orch \<Rightarrow> string \<Rightarrow> bool \<times> orch" where
  "check_component_dependencies e reg st name = check_deps e st name (deps_of reg name)"

text \<open>
  \<^verbatim>\<open>start_component\<close>, lines 310-370. A new instance always starts with
  \<^verbatim>\<open>'restart_count': 0\<close> (line 349). The instance is stored (line 346) before the wait for
  the startup delay: when \<^verbatim>\<open>time.sleep\<close> raises, the \<^verbatim>\<open>except\<close> branch (lines 368-370)
  logs and returns \<^verbatim>\<open>False\<close> and the entry stays; when the process has exited after
  the delay, the entry is deleted again (line 365).
\<close>

definition start_component :: "env \<Rightarrow> registry \<Rightarrow> orch \<Rightarrow> string \<Rightarrow> bool \<times> orch" where
  "start_component e reg st name =
     (if map_of (processes st) name \<noteq> None
      then (True, say [Warn_already_running name] st)
      else case map_of reg name of
        None \<Rightarrow> (False, say [Error_unknown_component name] st)
      | Some cfg \<Rightarrow>
          if \<not> script_exists e (script cfg)
          then (if optional cfg
                then (True, say [Info_optional_not_found name] st)
                else (False, say [Error_script_not_found name] st))
          else
            let (deps_ok, st1) = check_component_dependencies e reg st name in
            if \<not> deps_ok
            then (False, say [Error_dependencies_not_met name] st1)
            else
              let st2 = say [Info_starting_component name] st1 in
              (case popen e name of
                Popen_raises \<Rightarrow> (False, say [Error_starting name] st2)
              | spawned \<Rightarrow>
                  let st3 = st2\<lparr>processes :=
                                 AList.update name \<lparr>restart_count = 0, component_info = cfg\<rparr>
                                   (processes st2)\<rparr>;
                      st4 = (if 0 < startup_delay cfg
                             then say [Info_waiting name (startup_delay cfg)] st3 else st3)
                  in
                  if 0 < startup_delay cfg \<and> sleep_raises e (startup_delay cfg)
                  then (False, say [Error_starting name] st4)
                  else if spawned = Alive_after_delay
                  then (True, say [Info_started name] st4)
                  else (False,
                        say [Error_failed_to_start name]
                          (st4\<lparr>processes := AList.delete name (processes st4)\<rparr>))))"

text \<open>
  \<^verbatim>\<open>stop_component\<close>, lines 372-402. The entry is deleted (line 396) inside the
  \<^verbatim>\<open>try\<close>, after \<^verbatim>\<open>terminate\<close> and the waits; the \<^verbatim>\<open>except\<close> branch logs and returns
  \<^verbatim>\<open>False\<close>.
\<close>

definition stop_component :: "env \<Rightarrow> orch \<Rightarrow> string \<Rightarrow> bool \<times> orch" where
  "stop_component e st name =
     (if map_of (processes st) name = None
      then (True, say [Warn_not_running name] st)
      else
        let st1 = say [Info_stopping name] st in
        case terminate e name of
          Terminate_raises \<Rightarrow> (False, say [Error_stopping name] st1)
        | Exits_in_time \<Rightarrow>
            (True, say [Info_stopped name]
                     (st1\<lparr>processes := AList.delete name (processes st1)\<rparr>))
        | Killed_after_timeout \<Rightarrow>
            (True, say [Warn_force_killing name, Info_stopped name]
                     (st1\<lparr>processes := AList.delete name (processes st1)\<rparr>))
        | Kill_raises \<Rightarrow>
            (False, say [Warn_force_killing name, Error_stopping name] st1))"

text \<open>Lines 630-632 of \<^verbatim>\<open>restart_component\<close>: the increment of the running instance's counter.\<close>

definition bump_restart_count :: "orch \<Rightarrow> string \<Rightarrow> orch" where
  "bump_restart_count st name =
     (case map_of (processes st) name of
        None \<Rightarrow> st
      | Some info \<Rightarrow>
          st\<lparr>processes :=
               AList.update name (info\<lparr>restart_count := restart_count info + 1\<rparr>)
                 (processes st)\<rparr>)"

text \<open>\<^verbatim>\<open>restart_component\<close>, lines 626-636: increment, stop, (sleep), start.\<close>

definition restart_component :: "env \<Rightarrow> registry \<Rightarrow> orch \<Rightarrow> string \<Rightarrow> orch" where
  "restart_component e reg st name =
     (let st1 = bump_restart_count (say [Print_restarting name] st) name;
          st2 = snd (stop_component e st1 name)
      in snd (start_component e reg st2 name))"

text \<open>
  \<^verbatim>\<open>check_component_health\<close>, lines 404-439: liveness, then the port, then the health
  endpoint; an exception in either network check counts as a failed check.
\<close>

definition check_component_health :: "env \<Rightarrow> orch \<Rightarrow> string \<Rightarrow> bool" where
  "check_component_health e st name =
     (case map_of (processes st) name of
        None \<Rightarrow> False
      | Some info \<Rightarrow>
          if \<not> poll_alive e name then False
          else if port (component_info info) \<noteq> None \<and> \<not> port_open e name then False
          else if health_endpoint (component_info info) \<noteq> None
                  \<and> port (component_info info) \<noteq> None \<and> \<not> http_ok e name then False
          else True)"

text \<open>The counter read on line 665: \<^verbatim>\<open>self.processes.get(name, {}).get('restart_count', 0)\<close>.\<close>

definition restart_count_of :: "orch \<Rightarrow> string \<Rightarrow> nat" where
  "restart_count_of st name =
     (case map_of (processes st) name of None \<Rightarrow> 0 | Some info \<Rightarrow> restart_count info)"


subsection \<open>Control loops\<close>

text \<open>
  How the \<^verbatim>\<open>for\<close> loop of \<^verbatim>\<open>start_all\<close> ends: \<^verbatim>\<open>self.components[component_name]\<close>
  raised \<^verbatim>\<open>KeyError\<close>, the \<^verbatim>\<open>time.sleep\<close> of line 590 raised \<^verbatim>\<open>OverflowError\<close>
  (neither is caught), the \<^verbatim>\<open>return False\<close> of line 596, or the end of the list with the
  local \<^verbatim>\<open>failed_components\<close>.
\<close>

datatype loop_exit = Key_error | Overflow_error | Aborted | Completed "string list"

text \<open>Lines 581-596.\<close>

fun start_loop ::
  "env \<Rightarrow> registry \<Rightarrow> string list \<Rightarrow> string list \<Rightarrow> orch \<Rightarrow> loop_exit \<times> orch" where
  "start_loop e reg [] failed st = (Completed failed, st)"
| "start_loop e reg (name # rest) failed st =
     (case map_of reg name of
        None \<Rightarrow> (Key_error, st)
      | Some cfg \<Rightarrow>
          let (ok, st1) = start_component e reg (say [Print_starting name] st) name in
          if ok
          then (if 0 < startup_delay cfg
                then (if sleep_raises e (startup_delay cfg)
                      then (Overflow_error, say [Print_waiting (startup_delay cfg)] st1)
                      else start_loop e reg rest failed
                             (say [Print_waiting (startup_delay cfg)] st1))
                else start_loop e reg rest failed st1)
          else if critical cfg then (Aborted, say [Print_critical_abort name] st1)
          else start_loop e reg rest (failed @ [name]) st1)"

text \<open>
  \<^verbatim>\<open>start_all\<close>, lines 569-611; \<open>None\<close> stands for an uncaught exception. The status
  report printed at the end reads the state and does not change it.
\<close>

definition start_all :: "env \<Rightarrow> registry \<Rightarrow> orch \<Rightarrow> bool option \<times> orch" where
  "start_all e reg st =
     (let (startup_order, st1) = get_startup_order e reg st in
      case start_loop e reg startup_order [] (say [Info_startup_order startup_order] st1) of
        (Key_error, st2) \<Rightarrow> (None, st2)
      | (Overflow_error, st2) \<Rightarrow> (None, st2)
      | (Aborted, st2) \<Rightarrow> (Some False, st2)
      | (Completed failed, st2) \<Rightarrow>
          (Some (failed = []),
           say ((if failed \<noteq> [] then [Print_failed_to_start failed] else [])
                @ [Print_startup_completed]) st2))"

text \<open>\<^verbatim>\<open>stop_all\<close>, lines 613-624: the keys of \<^verbatim>\<open>self.processes\<close>, reversed.\<close>

definition stop_all :: "env \<Rightarrow> orch \<Rightarrow> orch" where
  "stop_all e st =
     say [Print_all_stopped]
       (fold (\<lambda>name s. snd (stop_component e s name)) (rev (map fst (processes st)))
          (say [Print_stopping_all] st))"

text \<open>\<^verbatim>\<open>shutdown\<close>, lines 735-739.\<close>

definition shutdown :: "env \<Rightarrow> orch \<Rightarrow> orch" where
  "shutdown e st = stop_all e (st\<lparr>running := False\<rparr>)"

text \<open>
  Lines 654-673, the \<^verbatim>\<open>for\<close> loop of one monitor iteration over the snapshot
  \<^verbatim>\<open>list(self.processes.keys())\<close>. The result is whether an exception left the loop
  (\<^verbatim>\<open>self.processes[component_name]\<close> on a name that is gone), the local
  \<^verbatim>\<open>failed_components\<close>, and the state.
\<close>

fun monitor_scan ::
  "env \<Rightarrow> registry \<Rightarrow> string list \<Rightarrow> string list \<Rightarrow> orch \<Rightarrow> bool \<times> string list \<times> orch" where
  "monitor_scan e reg [] failed st = (False, failed, st)"
| "monitor_scan e reg (name # rest) failed st =
     (if check_component_health e st name then monitor_scan e reg rest failed st
      else case map_of (processes st) name of
        None \<Rightarrow> (True, failed, st)
      | Some info \<Rightarrow>
          let policy = restart_policy (component_info info);
              st1 = say [Warn_health_check_failed name] st
          in
          if policy = ''always''
          then monitor_scan e reg rest failed
                 (restart_component e reg (say [Info_auto_restart_always name] st1) name)
          else if policy = ''on_failure''
          then (let count = restart_count_of st1 name in
                if count < 3
                then monitor_scan e reg rest failed
                       (restart_component e reg
                          (say [Info_auto_restart_on_failure name (count + 1)] st1) name)
                else monitor_scan e reg rest (failed @ [name])
                       (say [Error_restart_limit name] st1))
          else monitor_scan e reg rest (failed @ [name]) st1)"

text \<open>
  Line 677: \<^verbatim>\<open>[c for c in failed_components if self.components[c].get('critical', False)]\<close>;
  \<open>None\<close> when a name is not in the registry and the lookup raises.
\<close>

definition critical_failed :: "registry \<Rightarrow> string list \<Rightarrow> string list option" where
  "critical_failed reg failed =
     (if list_all (\<lambda>c. map_of reg c \<noteq> None) failed
      then Some (filter (\<lambda>c. case map_of reg c of None \<Rightarrow> False | Some cfg \<Rightarrow> critical cfg) failed)
      else None)"

text \<open>
  One pass of the \<^verbatim>\<open>while\<close> body, lines 650-690. The result is the local
  \<^verbatim>\<open>failed_components\<close>, the list of the critical alert when one is raised, and the state.
  An exception inside the \<^verbatim>\<open>try\<close> is logged by the \<^verbatim>\<open>except Exception\<close> branch.
\<close>

definition monitor_iteration ::
  "env \<Rightarrow> registry \<Rightarrow> orch \<Rightarrow> string list \<times> string list option \<times> orch" where
  "monitor_iteration e reg st =
     (case monitor_scan e reg (map fst (processes st)) [] st of
        (True, failed, st1) \<Rightarrow> (failed, None, say [Error_monitoring_loop] st1)
      | (False, failed, st1) \<Rightarrow>
          if failed = [] then (failed, None, st1)
          else (case critical_failed reg failed of
                  None \<Rightarrow> (failed, None, say [Error_monitoring_loop] st1)
                | Some cs \<Rightarrow>
                    if cs = [] then (failed, None, st1)
                    else (failed, Some cs, say [Critical_alert cs] st1)))"

text \<open>
  \<^verbatim>\<open>monitor_loop\<close>, lines 645-690. Each element of the list is the environment during one
  iteration; the end of the list is the interrupt that breaks the loop.
\<close>

fun monitor_loop :: "env list \<Rightarrow> registry \<Rightarrow> orch \<Rightarrow> orch" where
  "monitor_loop [] reg st = st"
| "monitor_loop (e # es) reg st =
     (if \<not> running st then st
      else monitor_loop es reg (snd (snd (monitor_iteration e reg st))))"

subsection \<open>Runs of the supervisor\<close>

text \<open>
  The operations the command surface of \<^verbatim>\<open>main\<close> reaches, each with the environment it
  meets; a run applies them in turn to the orchestrator's state.
\<close>

datatype op = Start string | Stop string | Restart string | Start_all | Stop_all | Monitor

fun apply_op :: "registry \<Rightarrow> orch \<Rightarrow> op \<times> env \<Rightarrow> orch" where
  "apply_op reg st (Start name, e) = snd (start_component e reg st name)"
| "apply_op reg st (Stop name, e) = snd (stop_component e st name)"
| "apply_op reg st (Restart name, e) = restart_component e reg st name"
| "apply_op reg st (Start_all, e) = snd (start_all e reg st)"
| "apply_op reg st (Stop_all, e) = stop_all e st"
| "apply_op reg st (Monitor, e) = snd (snd (monitor_iteration e reg st))"

definition run :: "registry \<Rightarrow> (op \<times> env) list \<Rightarrow> orch" where
  "run reg ops = foldl (apply_op reg) init_orch ops"

subsection \<open>Notions the properties are stated with\<close>

text \<open>\<open>d\<close> occurs in \<open>xs\<close> before the first occurrence of \<open>c\<close>.\<close>

definition precedes :: "string list \<Rightarrow> string \<Rightarrow> string \<Rightarrow> bool" where
  "precedes xs d c = (d \<in> set (takeWhile (\<lambda>x. x \<noteq> c) xs))"

text \<open>The dependency edges between components that are not excluded.\<close>

definition dep_graph :: "env \<Rightarrow> registry \<Rightarrow> (string \<times> string) set" where
  "dep_graph e reg =
     {(c, d). c \<in> set (active_components e reg) \<and> d \<in> set (active_components e reg)
              \<and> d \<in> set (deps_of reg c)}"

text \<open>The names a log line of each kind carries, in the order the lines were written.\<close>

fun stopping_name :: "event \<Rightarrow> string option" where
  "stopping_name (Info_stopping n) = Some n"
| "stopping_name _ = None"

definition stop_attempts :: "event list \<Rightarrow> string list" where
  "stop_attempts evs = List.map_filter stopping_name evs"

fun starting_name :: "event \<Rightarrow> string option" where
  "starting_name (Print_starting n) = Some n"
| "starting_name _ = None"

definition start_attempts :: "event list \<Rightarrow> string list" where
  "start_attempts evs = List.map_filter starting_name evs"

text \<open>
  The specification's ``ordered list of component names in the sequence they were actually
  started'', read off the log. A component enters at the end when its process has been
  launched and kept: at the line that announces the wait for its startup delay (written right
  after the instance is stored) or at the line that reports it started. It leaves when it is
  reported to have failed during startup or to have stopped. A component that is already in
  the list keeps its place.
\<close>

fun track_start :: "string list \<Rightarrow> event \<Rightarrow> string list" where
  "track_start xs (Info_waiting n d) = (if n \<in> set xs then xs else xs @ [n])"
| "track_start xs (Info_started n) = (if n \<in> set xs then xs else xs @ [n])"
| "track_start xs (Error_failed_to_start n) = removeAll n xs"
| "track_start xs (Info_stopped n) = removeAll n xs"
| "track_start xs _ = xs"

definition actual_start_sequence :: "event list \<Rightarrow> string list" where
  "actual_start_sequence evs = foldl track_start [] evs"

text \<open>The running map lists the components in that order, each once.\<close>

definition tracked :: "orch \<Rightarrow> bool" where
  "tracked st \<longleftrightarrow>
     distinct (map fst (processes st))
     \<and> actual_start_sequence (log st) = map fst (processes st)"

text \<open>
  What makes the monitor add an instance to \<^verbatim>\<open>failed_components\<close>: it is unhealthy, its
  policy is not \<^verbatim>\<open>always\<close>, and if the policy is \<^verbatim>\<open>on_failure\<close> its counter has reached 3.
\<close>

definition gives_up :: "env \<Rightarrow> orch \<Rightarrow> string \<Rightarrow> bool" where
  "gives_up e st name =
     (case map_of (processes st) name of
        None \<Rightarrow> False
      | Some info \<Rightarrow>
          \<not> check_component_health e st name
          \<and> restart_policy (component_info info) \<noteq> ''always''
          \<and> (restart_policy (component_info info) = ''on_failure'' \<longrightarrow> 3 \<le> restart_count info))"

subsection \<open>Scenarios\<close>

text \<open>A component with every optional key left at its default, and a world where nothing fails.\<close>

definition plain :: component where
  "plain = \<lparr>script = ''svc.py'', port = None, health_endpoint = None, dependencies = [],
             critical = False, restart_policy = ''manual'', startup_delay = 0, optional = False\<rparr>"

definition calm :: env where
  "calm = \<lparr>script_exists = (\<lambda>_. True), hash_slot = (\<lambda>_. 0), popen = (\<lambda>_. Alive_after_delay),
            dep_alive = (\<lambda>_ _. True), terminate = (\<lambda>_. Exits_in_time), poll_alive = (\<lambda>_. True),
            port_open = (\<lambda>_. True), http_ok = (\<lambda>_. True), sleep_raises = (\<lambda>_. False)\<rparr>"

text \<open>The specification's example: A, B depending on A, and the critical C depending on both.\<close>

definition abc_registry :: registry where
  "abc_registry =
     [(''C'', plain\<lparr>dependencies := [''A'', ''B''], critical := True\<rparr>),
      (''B'', plain\<lparr>dependencies := [''A'']\<rparr>),
      (''A'', plain)]"

text \<open>The example with a fourth component behind C, in a world where C exits at once.\<close>

definition abcd_registry :: registry where
  "abcd_registry = abc_registry @ [(''D'', plain\<lparr>dependencies := [''C'']\<rparr>)]"

definition c_dies :: env where
  "c_dies = calm\<lparr>popen := (\<lambda>n. if n = ''C'' then Exits_during_delay else Alive_after_delay)\<rparr>"

text \<open>
  One worker with policy \<^verbatim>\<open>on_failure\<close> that declares a port; a world where no port
  answers; a world where \<^verbatim>\<open>terminate\<close> raises; the state after the worker was started.
\<close>

definition worker_registry :: registry where
  "worker_registry = [(''w'', plain\<lparr>restart_policy := ''on_failure'', port := Some 9090\<rparr>)]"

definition deaf :: env where
  "deaf = calm\<lparr>port_open := (\<lambda>_. False)\<rparr>"

definition jammed :: env where
  "jammed = calm\<lparr>terminate := (\<lambda>_. Terminate_raises)\<rparr>"

definition worker_started :: orch where
  "worker_started = snd (start_component calm worker_registry init_orch ''w'')"

text \<open>Two components that depend on each other beside a free one; a dependency on a name
  the registry does not have.\<close>

definition cyclic_registry :: registry where
  "cyclic_registry =
     [(''a'', plain\<lparr>dependencies := [''b'']\<rparr>),
      (''b'', plain\<lparr>dependencies := [''a'']\<rparr>),
      (''c'', plain)]"

definition ghost_registry :: registry where
  "ghost_registry = [(''m'', plain\<lparr>dependencies := [''ghost'']\<rparr>)]"

text \<open>Two components with the same delay, a world whose set iterates \<^verbatim>\<open>b\<close> before
  \<^verbatim>\<open>a\<close>, and three components with two different delays.\<close>

definition twins :: registry where
  "twins = [(''a'', plain), (''b'', plain)]"

definition b_first :: env where
  "b_first = calm\<lparr>hash_slot := (\<lambda>n. if n = ''b'' then 0 else 1)\<rparr>"

definition delays_registry :: registry where
  "delays_registry =
     [(''x'', plain\<lparr>startup_delay := 5\<rparr>), (''y'', plain), (''z'', plain\<lparr>startup_delay := 5\<rparr>)]"

text \<open>A required component whose only dependency is optional and has no script.\<close>

definition optional_dep_registry :: registry where
  "optional_dep_registry =
     [(''x'', plain\<lparr>script := ''x.py'', dependencies := [''y'']\<rparr>),
      (''y'', plain\<lparr>script := ''y.py'', optional := True\<rparr>)]"

definition no_y :: env where
  "no_y = calm\<lparr>script_exists := (\<lambda>s. s \<noteq> ''y.py'')\<rparr>"

text \<open>The worker's registry entry.\<close>

definition worker_cfg :: component where
  "worker_cfg = plain\<lparr>restart_policy := ''on_failure'', port := Some 9090\<rparr>"

text \<open>A critical component with policy \<^verbatim>\<open>always\<close> and a critical one with the default
  policy, both declaring a port, and the state after both were started.\<close>

definition guard_registry :: registry where
  "guard_registry =
     [(''a'', plain\<lparr>critical := True, restart_policy := ''always'', port := Some 5000\<rparr>),
      (''m'', plain\<lparr>critical := True, port := Some 8080\<rparr>)]"

definition guard_started :: orch where
  "guard_started = snd (start_all calm guard_registry init_orch)"

text \<open>A world where stopping \<^verbatim>\<open>C\<close> raises, and a run that starts the example and then
  restarts \<^verbatim>\<open>A\<close>.\<close>

definition c_jams :: env where
  "c_jams = calm\<lparr>terminate := (\<lambda>n. if n = ''C'' then Terminate_raises else Exits_in_time)\<rparr>"

definition abc_ops :: "(op \<times> env) list" where
  "abc_ops = [(Start_all, calm), (Restart ''A'', calm)]"


section \<open>Properties of the dependency resolver\<close>

lemma set_ready_batch:
  "set (ready_batch reg ordered remaining) = {c \<in> set remaining. is_ready reg ordered remaining c}"
  by (auto simp: ready_batch_def)

lemma distinct_ready_batch:
  "distinct remaining \<Longrightarrow> distinct (ready_batch reg ordered remaining)"
  by (simp add: ready_batch_def)

lemma resolve_loop_partition:
  "resolve_loop reg ordered remaining = (ord, unres) \<Longrightarrow>
   distinct ordered \<Longrightarrow> distinct remaining \<Longrightarrow> set ordered \<inter> set remaining = {} \<Longrightarrow>
   distinct ord \<and> distinct unres \<and> set ord \<inter> set unres = {}
     \<and> set ord \<union> set unres = set ordered \<union> set remaining"
proof (induction reg ordered remaining rule: resolve_loop.induct)
  case (1 reg ordered remaining)
  let ?ready = "ready_batch reg ordered remaining"
  show ?case
  proof (cases "remaining = [] \<or> ?ready = []")
    case True
    with "1.prems" show ?thesis
      by (auto simp: resolve_loop.simps [of reg ordered remaining] Let_def split: if_splits)
  next
    case False
    then have res: "resolve_loop reg (ordered @ ?ready) (filter (\<lambda>c. c \<notin> set ?ready) remaining) = (ord, unres)"
      using "1.prems"(1) by (simp add: resolve_loop.simps [of reg ordered remaining] Let_def)
    have sub: "set ?ready \<subseteq> set remaining"
      by (auto simp: set_ready_batch)
    have d1: "distinct (ordered @ ?ready)"
      using "1.prems" sub by (auto simp: distinct_ready_batch)
    have d2: "distinct (filter (\<lambda>c. c \<notin> set ?ready) remaining)"
      using "1.prems" by simp
    have d3: "set (ordered @ ?ready) \<inter> set (filter (\<lambda>c. c \<notin> set ?ready) remaining) = {}"
      using "1.prems" by auto
    from "1.IH" [OF _ refl _ res d1 d2 d3] False
    have "distinct ord \<and> distinct unres \<and> set ord \<inter> set unres = {}
      \<and> set ord \<union> set unres = set (ordered @ ?ready) \<union> set (filter (\<lambda>c. c \<notin> set ?ready) remaining)"
      by simp
    moreover have "set (ordered @ ?ready) \<union> set (filter (\<lambda>c. c \<notin> set ?ready) remaining) = set ordered \<union> set remaining"
      using sub by auto
    ultimately show ?thesis by simp
  qed
qed

lemma resolve_loop_stuck:
  "resolve_loop reg ordered remaining = (ord, unres) \<Longrightarrow> ready_batch reg ord unres = []"
proof (induction reg ordered remaining rule: resolve_loop.induct)
  case (1 reg ordered remaining)
  let ?ready = "ready_batch reg ordered remaining"
  show ?case
  proof (cases "remaining = [] \<or> ?ready = []")
    case True
    with "1.prems" show ?thesis
      by (auto simp: resolve_loop.simps [of reg ordered remaining] Let_def ready_batch_def split: if_splits)
  next
    case False
    then have res: "resolve_loop reg (ordered @ ?ready) (filter (\<lambda>c. c \<notin> set ?ready) remaining) = (ord, unres)"
      using "1.prems"(1) by (simp add: resolve_loop.simps [of reg ordered remaining] Let_def)
    from "1.IH" [OF _ refl _ res] False show ?thesis by simp
  qed
qed

lemma precedes_append_old:
  "c \<in> set xs \<Longrightarrow> precedes (xs @ ys) d c = precedes xs d c"
  by (simp add: precedes_def)

lemma precedes_append_new:
  "c \<notin> set xs \<Longrightarrow> d \<in> set xs \<Longrightarrow> precedes (xs @ ys) d c"
proof -
  assume c: "c \<notin> set xs" and d: "d \<in> set xs"
  from c have "takeWhile (\<lambda>x. x \<noteq> c) (xs @ ys) = xs @ takeWhile (\<lambda>x. x \<noteq> c) ys"
    by (intro takeWhile_append2) auto
  with d show ?thesis
    by (simp add: precedes_def)
qed

lemma resolve_loop_respects:
  "resolve_loop reg ordered remaining = (ord, unres) \<Longrightarrow>
   \<forall>c\<in>set ordered. \<forall>d\<in>set (deps_of reg c). d \<in> A \<longrightarrow> precedes ordered d c \<Longrightarrow>
   set ordered \<inter> set remaining = {} \<Longrightarrow> set ordered \<union> set remaining = A \<Longrightarrow>
   \<forall>c\<in>set ord. \<forall>d\<in>set (deps_of reg c). d \<in> A \<longrightarrow> precedes ord d c"
proof (induction reg ordered remaining rule: resolve_loop.induct)
  case (1 reg ordered remaining)
  let ?ready = "ready_batch reg ordered remaining"
  let ?rest = "filter (\<lambda>c. c \<notin> set ?ready) remaining"
  show ?case
  proof (cases "remaining = [] \<or> ?ready = []")
    case True
    with "1.prems"(1,2) show ?thesis
      by (auto simp: resolve_loop.simps [of reg ordered remaining] Let_def split: if_splits)
  next
    case False
    then have res: "resolve_loop reg (ordered @ ?ready) ?rest = (ord, unres)"
      using "1.prems"(1) by (simp add: resolve_loop.simps [of reg ordered remaining] Let_def)
    have sub: "set ?ready \<subseteq> set remaining"
      by (auto simp: set_ready_batch)
    have un: "set (ordered @ ?ready) \<union> set ?rest = A"
      using sub "1.prems"(4) by auto
    have inv: "\<forall>c\<in>set (ordered @ ?ready). \<forall>d\<in>set (deps_of reg c).
                 d \<in> A \<longrightarrow> precedes (ordered @ ?ready) d c"
    proof (intro ballI impI)
      fix c d
      assume c: "c \<in> set (ordered @ ?ready)" and d: "d \<in> set (deps_of reg c)"
        and dA: "d \<in> A"
      from dA "1.prems"(4) have dA': "d \<in> set ordered \<or> d \<in> set remaining" by blast
      show "precedes (ordered @ ?ready) d c"
      proof (cases "c \<in> set ordered")
        case True
        from "1.prems"(2) True d dA have "precedes ordered d c"
          by blast
        with True show ?thesis
          by (simp add: precedes_append_old)
      next
        case False
        with c have cr: "c \<in> set ?ready" by simp
        then have "is_ready reg ordered remaining c"
          by (simp add: set_ready_batch)
        with d have "d \<in> set ordered \<or> d \<notin> set remaining"
          by (auto simp: is_ready_def list_all_iff)
        with dA' have "d \<in> set ordered" by auto
        with False show ?thesis
          by (simp add: precedes_append_new)
      qed
    qed
    have disj: "set (ordered @ ?ready) \<inter> set ?rest = {}"
      using "1.prems"(3) by auto
    from False have "\<not> remaining = []" "\<not> ?ready = []" by simp_all
    from "1.IH" [OF this(1) refl this(2) res inv disj un] show ?thesis .
  qed
qed


lemma distinct_active_components: "distinct (active_components e reg)"
  by (simp add: active_components_def set_iteration_def)

lemma set_active_components:
  "set (active_components e reg) = {c \<in> fst ` set reg. \<not> excluded e reg c}"
  by (auto simp: active_components_def set_iteration_def)

lemma resolve_facts:
  assumes "resolve e reg = (ord, unres)"
  shows "distinct ord" and "distinct unres" and "set ord \<inter> set unres = {}"
    and "set ord \<union> set unres = set (active_components e reg)"
    and "ready_batch reg ord unres = []"
    and "\<forall>c\<in>set ord. \<forall>d\<in>set (deps_of reg c).
           d \<in> set (active_components e reg) \<longrightarrow> precedes ord d c"
proof -
  from assms have r: "resolve_loop reg [] (active_components e reg) = (ord, unres)"
    by (simp add: resolve_def)
  from resolve_loop_partition [OF r] distinct_active_components
  show "distinct ord" "distinct unres" "set ord \<inter> set unres = {}"
    "set ord \<union> set unres = set (active_components e reg)"
    by simp_all
  from resolve_loop_stuck [OF r] show "ready_batch reg ord unres = []" .
  from resolve_loop_respects [OF r, of "set (active_components e reg)"]
  show "\<forall>c\<in>set ord. \<forall>d\<in>set (deps_of reg c).
           d \<in> set (active_components e reg) \<longrightarrow> precedes ord d c"
    by simp
qed

lemma finite_dep_graph: "finite (dep_graph e reg)"
proof -
  have "dep_graph e reg \<subseteq> set (active_components e reg) \<times> set (active_components e reg)"
    by (auto simp: dep_graph_def)
  then show ?thesis
    by (rule finite_subset) simp
qed

lemma acyclic_leaves_nothing:
  assumes ac: "acyclic (dep_graph e reg)" and res: "resolve e reg = (ord, unres)"
  shows "unres = []"
proof (rule ccontr)
  assume ne: "unres \<noteq> []"
  then obtain x where x: "x \<in> set unres"
    by (cases unres) auto
  have wf: "wf ((dep_graph e reg)\<inverse>)"
    using finite_dep_graph ac by (rule finite_acyclic_wf_converse)
  from wfE_min [OF wf x] obtain z where z: "z \<in> set unres"
    and zmin: "\<And>y. (y, z) \<in> (dep_graph e reg)\<inverse> \<Longrightarrow> y \<notin> set unres"
    by blast
  from resolve_facts(4) [OF res] have sub: "set unres \<subseteq> set (active_components e reg)"
    by blast
  have "is_ready reg ord unres z"
    unfolding is_ready_def list_all_iff
  proof
    fix d assume d: "d \<in> set (deps_of reg z)"
    show "d \<in> set ord \<or> d \<notin> set unres"
    proof (cases "d \<in> set unres")
      case True
      with d z sub have "(d, z) \<in> (dep_graph e reg)\<inverse>"
        by (auto simp: dep_graph_def)
      from zmin [OF this] True show ?thesis by simp
    next
      case False
      then show ?thesis by simp
    qed
  qed
  with z have "z \<in> set (ready_batch reg ord unres)"
    by (simp add: set_ready_batch)
  with resolve_facts(5) [OF res] show False
    by simp
qed

lemma precedes_trans: "precedes xs a b \<Longrightarrow> precedes xs b c \<Longrightarrow> precedes xs a c"
  unfolding precedes_def by (induction xs) (auto split: if_splits)

lemma precedes_irrefl: "\<not> precedes xs c c"
  unfolding precedes_def by (induction xs) auto

lemma precedes_mem: "precedes xs d c \<Longrightarrow> d \<in> set xs"
  unfolding precedes_def by (auto dest: set_takeWhileD)

lemma dep_path_precedes:
  assumes res: "resolve e reg = (ord, unres)"
  shows "(c, d) \<in> (dep_graph e reg)\<^sup>+ \<Longrightarrow> c \<in> set ord \<Longrightarrow> precedes ord d c"
proof (induction rule: trancl_induct)
  case (base y)
  with resolve_facts(6) [OF res] show ?case
    by (auto simp: dep_graph_def)
next
  case (step y z)
  then have yc: "precedes ord y c" by simp
  then have "y \<in> set ord" by (rule precedes_mem)
  with step.hyps(2) resolve_facts(6) [OF res] have "precedes ord z y"
    by (auto simp: dep_graph_def)
  then show ?case using yc by (rule precedes_trans)
qed

lemma cycle_member_unresolved:
  assumes res: "resolve e reg = (ord, unres)" and cyc: "(c, c) \<in> (dep_graph e reg)\<^sup>+"
  shows "c \<in> set unres" and "c \<notin> set ord"
proof -
  show no: "c \<notin> set ord"
    using dep_path_precedes [OF res cyc] precedes_irrefl by blast
  from cyc have "c \<in> Domain (dep_graph e reg)"
    by (metis Domain.simps tranclD)
  then have "c \<in> set (active_components e reg)"
    by (auto simp: dep_graph_def)
  with resolve_facts(4) [OF res] no show "c \<in> set unres"
    by blast
qed

lemma fst_get_startup_order: "fst (get_startup_order e reg st) = fst (resolve e reg)"
  by (simp add: get_startup_order_def Let_def split: prod.splits)

lemma active_abc: "active_components calm abc_registry = [''C'', ''B'', ''A'']"
  by (simp add: active_components_def set_iteration_def calm_def abc_registry_def excluded_def plain_def)

lemma deps_abc:
  "deps_of abc_registry ''C'' = [''A'', ''B'']"
  "deps_of abc_registry ''B'' = [''A'']"
  "deps_of abc_registry ''A'' = []"
  by (simp_all add: deps_of_def abc_registry_def plain_def)

lemma acyclic_abc: "acyclic (dep_graph calm abc_registry)"
proof -
  let ?rank = "\<lambda>c. if c = ''A'' then 0 else if c = ''B'' then 1 else (2::nat)"
  have "dep_graph calm abc_registry \<subseteq> (measure ?rank)\<inverse>"
    by (auto simp: dep_graph_def active_abc deps_abc)
  moreover have "acyclic ((measure ?rank)\<inverse>)"
    by (simp add: wf_acyclic)
  ultimately show ?thesis
    by (rule acyclic_subset [rotated])
qed

text \<open>
  C4. When the dependency graph over the non-excluded components is acyclic and every
  dependency names a non-excluded component of the registry, the resolver (a total function:
  its loop terminates) leaves nothing unresolved and returns an order that contains each
  non-excluded component exactly once and in which every dependency of a component occurs
  before that component.
\<close>

theorem get_startup_order_topological:
  assumes "acyclic (dep_graph e reg)"
    and "\<forall>c\<in>set (active_components e reg). set (deps_of reg c) \<subseteq> set (active_components e reg)"
  shows "snd (resolve e reg) = []
     \<and> distinct (fst (get_startup_order e reg st))
     \<and> set (fst (get_startup_order e reg st)) = {c \<in> fst ` set reg. \<not> excluded e reg c}
     \<and> (\<forall>c\<in>set (fst (get_startup_order e reg st)). \<forall>d\<in>set (deps_of reg c).
           precedes (fst (get_startup_order e reg st)) d c)"
proof -
  obtain ord unres where res: "resolve e reg = (ord, unres)"
    by (cases "resolve e reg")
  from acyclic_leaves_nothing [OF assms(1) res] have u: "unres = []" .
  from resolve_facts(4) [OF res] u have s: "set ord = set (active_components e reg)"
    by simp
  have "\<forall>c\<in>set ord. \<forall>d\<in>set (deps_of reg c). precedes ord d c"
  proof (intro ballI)
    fix c d assume c: "c \<in> set ord" and d: "d \<in> set (deps_of reg c)"
    from c s assms(2) d have "d \<in> set (active_components e reg)"
      by blast
    with resolve_facts(6) [OF res] c d show "precedes ord d c"
      by blast
  qed
  with res u s resolve_facts(1) [OF res] show ?thesis
    by (simp add: fst_get_startup_order set_active_components)
qed

theorem get_startup_order_topological_witness:
  "acyclic (dep_graph calm abc_registry)
   \<and> set (deps_of abc_registry ''A'') \<subseteq> set (active_components calm abc_registry)
   \<and> set (deps_of abc_registry ''B'') \<subseteq> set (active_components calm abc_registry)
   \<and> set (deps_of abc_registry ''C'') \<subseteq> set (active_components calm abc_registry)
   \<and> snd (resolve calm abc_registry) = []
   \<and> distinct (fst (get_startup_order calm abc_registry init_orch))
   \<and> set (fst (get_startup_order calm abc_registry init_orch)) = {''A'', ''B'', ''C''}
   \<and> precedes (fst (get_startup_order calm abc_registry init_orch)) ''A'' ''B''
   \<and> precedes (fst (get_startup_order calm abc_registry init_orch)) ''B'' ''C''"
proof -
  let ?ord = "fst (get_startup_order calm abc_registry init_orch)"
  have subs: "set (deps_of abc_registry ''A'') \<subseteq> set (active_components calm abc_registry)"
    "set (deps_of abc_registry ''B'') \<subseteq> set (active_components calm abc_registry)"
    "set (deps_of abc_registry ''C'') \<subseteq> set (active_components calm abc_registry)"
    by (simp_all add: active_abc deps_abc)
  then have h2: "\<forall>c\<in>set (active_components calm abc_registry).
         set (deps_of abc_registry c) \<subseteq> set (active_components calm abc_registry)"
    by (simp add: active_abc)
  have ex: "{c \<in> fst ` set abc_registry. \<not> excluded calm abc_registry c} = {''A'', ''B'', ''C''}"
    by (auto simp: abc_registry_def excluded_def plain_def calm_def)
  note t = get_startup_order_topological [OF acyclic_abc h2, of init_orch]
  from t have e1: "snd (resolve calm abc_registry) = []" and e2: "distinct ?ord"
    by blast+
  from t ex have e3: "set ?ord = {''A'', ''B'', ''C''}"
    by simp
  from t have e4: "\<forall>c\<in>set ?ord. \<forall>d\<in>set (deps_of abc_registry c). precedes ?ord d c"
    by blast
  from e3 have "''B'' \<in> set ?ord" and "''C'' \<in> set ?ord"
    by simp_all
  with e4 have e5: "precedes ?ord ''A'' ''B''" and e6: "precedes ?ord ''B'' ''C''"
    by (auto simp: deps_abc)
  from acyclic_abc subs e1 e2 e3 e5 e6 show ?thesis
    by blast
qed

section \<open>Properties of the supervisor\<close>

lemma processes_say [simp]: "processes (say evs st) = processes st"
  by (simp add: say_def)

lemma log_say [simp]: "log (say evs st) = log st @ evs"
  by (simp add: say_def)

lemma running_say [simp]: "running (say evs st) = running st"
  by (simp add: say_def)

lemma processes_check_deps [simp]: "processes (snd (check_deps e st name ds)) = processes st"
  by (induction ds) auto

lemma processes_check_component_dependencies [simp]:
  "processes (snd (check_component_dependencies e reg st name)) = processes st"
  by (simp add: check_component_dependencies_def)

lemma delete_fresh_update:
  "map_of ps k = None \<Longrightarrow> AList.delete k (AList.update k v ps) = ps"
  by (simp add: delete_update_same map_of_eq_None_iff)

lemma delete_absent: "map_of ps k = None \<Longrightarrow> AList.delete k ps = ps"
  by (simp add: map_of_eq_None_iff)

lemma start_component_failure_absent:
  "\<not> fst (start_component e reg st name) \<Longrightarrow> map_of (processes st) name = None"
  by (auto simp: start_component_def split: if_splits)

lemma start_component_failure_frame:
  "\<not> fst (start_component e reg st name) \<Longrightarrow>
   AList.delete name (processes (snd (start_component e reg st name))) = processes st"
  by (auto simp: start_component_def Let_def split_beta delete_fresh_update delete_absent
      delete_update_same split: option.splits if_splits spawn_result.splits)

lemma start_component_failure_keeps_processes:
  "\<not> fst (start_component e reg st name) \<Longrightarrow> map_of reg name = Some cfg \<Longrightarrow>
   \<not> (0 < startup_delay cfg \<and> sleep_raises e (startup_delay cfg)) \<Longrightarrow>
   processes (snd (start_component e reg st name)) = processes st"
  by (auto simp: start_component_def Let_def split_beta delete_fresh_update
      split: option.splits if_splits spawn_result.splits)

lemma start_component_entry_other:
  "other \<noteq> name \<Longrightarrow>
   map_of (processes (snd (start_component e reg st name))) other = map_of (processes st) other"
  by (auto simp: start_component_def Let_def split_beta delete_fresh_update update_conv'
      delete_conv' split: option.splits if_splits spawn_result.splits)

lemma stop_component_entry_other:
  "other \<noteq> name \<Longrightarrow>
   map_of (processes (snd (stop_component e st name))) other = map_of (processes st) other"
  by (auto simp: stop_component_def Let_def split: stop_result.splits)

text \<open>
  C6 (as the code has it). \<^verbatim>\<open>stop_component\<close> returns success exactly when the component
  was not running or the process went away (in time, or after the kill). On success the
  instance is no longer in the running map, and nothing else in the map has changed. When
  \<^verbatim>\<open>terminate\<close>, \<^verbatim>\<open>kill\<close> or a wait raises, it logs the error line (after the line that
  announces the stop and, when the kill was reached, the force-kill warning), returns failure,
  and the running map, the instance included, is left as it was.
\<close>

theorem stop_component_removes_unless_raises:
  "(fst (stop_component e st name) \<longleftrightarrow>
      map_of (processes st) name = None \<or> terminate e name = Exits_in_time
      \<or> terminate e name = Killed_after_timeout)
   \<and> (fst (stop_component e st name) \<longrightarrow>
        map_of (processes (snd (stop_component e st name))) name = None
        \<and> processes (snd (stop_component e st name)) = AList.delete name (processes st))
   \<and> (\<not> fst (stop_component e st name) \<longrightarrow>
        processes (snd (stop_component e st name)) = processes st
        \<and> map_of (processes (snd (stop_component e st name))) name \<noteq> None
        \<and> log (snd (stop_component e st name))
            = log st @ [Info_stopping name]
              @ (if terminate e name = Kill_raises then [Warn_force_killing name] else [])
              @ [Error_stopping name])"
  by (auto simp: stop_component_def Let_def delete_conv' delete_absent split: stop_result.splits)

theorem stop_component_removes_unless_raises_witness:
  "\<not> fst (stop_component jammed worker_started ''w'')
   \<and> processes (snd (stop_component jammed worker_started ''w'')) = processes worker_started
   \<and> log (snd (stop_component jammed worker_started ''w''))
       = log worker_started @ [Info_stopping ''w'', Error_stopping ''w'']
   \<and> fst (stop_component calm worker_started ''w'')
   \<and> map_of (processes (snd (stop_component calm worker_started ''w''))) ''w'' = None"
proof -
  have r: "map_of (processes worker_started) ''w'' \<noteq> None"
    by code_simp
  have j: "terminate jammed ''w'' = Terminate_raises" and c: "terminate calm ''w'' = Exits_in_time"
    by (simp_all add: jammed_def calm_def)
  from stop_component_removes_unless_raises [of jammed worker_started "''w''"] r j
  have "\<not> fst (stop_component jammed worker_started ''w'')
      \<and> processes (snd (stop_component jammed worker_started ''w'')) = processes worker_started
      \<and> log (snd (stop_component jammed worker_started ''w''))
          = log worker_started @ [Info_stopping ''w'', Error_stopping ''w'']"
    by simp
  moreover from stop_component_removes_unless_raises [of calm worker_started "''w''"] c
  have "fst (stop_component calm worker_started ''w'')
      \<and> map_of (processes (snd (stop_component calm worker_started ''w''))) ''w'' = None"
    by (simp add: delete_conv')
  ultimately show ?thesis
    by simp
qed

theorem stop_component_keeps_instance_on_error_counterexample:
  "map_of (processes worker_started) ''w'' \<noteq> None
   \<and> fst (stop_component jammed worker_started ''w'') = False
   \<and> map_of (processes (snd (stop_component jammed worker_started ''w''))) ''w'' \<noteq> None"
  by code_simp

section \<open>Properties of the startup loop\<close>

lemma start_attempts_append [simp]:
  "start_attempts (xs @ ys) = start_attempts xs @ start_attempts ys"
  by (induction xs) (auto simp: start_attempts_def split: option.splits)

lemma start_attempts_Nil [simp]: "start_attempts [] = []"
  by (simp add: start_attempts_def)

lemma start_attempts_Cons [simp]:
  "start_attempts (ev # evs) =
     (case starting_name ev of None \<Rightarrow> start_attempts evs | Some n \<Rightarrow> n # start_attempts evs)"
  by (simp add: start_attempts_def split: option.splits)

lemma start_attempts_check_deps [simp]:
  "start_attempts (log (snd (check_deps e st name ds))) = start_attempts (log st)"
  by (induction ds) auto

lemma start_attempts_start_component [simp]:
  "start_attempts (log (snd (start_component e reg st name))) = start_attempts (log st)"
  by (auto simp: start_component_def Let_def split_beta check_component_dependencies_def
      split: option.splits if_splits spawn_result.splits)

lemma start_attempts_get_startup_order [simp]:
  "start_attempts (log (snd (get_startup_order e reg st))) = start_attempts (log st)"
proof -
  have "start_attempts (map Info_optional_not_found xs) = []" for xs
    by (induction xs) auto
  then show ?thesis
    by (simp add: get_startup_order_def Let_def split_beta)
qed

lemma processes_get_startup_order [simp]:
  "processes (snd (get_startup_order e reg st)) = processes st"
  by (simp add: get_startup_order_def Let_def split_beta)

lemma start_loop_append:
  "start_loop e reg pre failed st = (Completed failed', st1) \<Longrightarrow>
   start_loop e reg (pre @ rest) failed st = start_loop e reg rest failed' st1"
  by (induction pre arbitrary: failed st)
     (auto simp: Let_def split_beta split: option.splits if_splits)

lemma start_loop_attempts:
  "start_loop e reg pre failed st = (Completed failed', st1) \<Longrightarrow>
   start_attempts (log st1) = start_attempts (log st) @ pre"
proof (induction pre arbitrary: failed st)
  case Nil
  then show ?case by simp
next
  case (Cons name pre)
  from Cons.prems obtain cfg where cfg: "map_of reg name = Some cfg"
    by (auto split: option.splits)
  let ?st = "snd (start_component e reg (say [Print_starting name] st) name)"
  from Cons.prems cfg obtain f st' where
    "start_loop e reg pre f st' = (Completed failed', st1)"
    and "start_attempts (log st') = start_attempts (log ?st)"
    by (auto simp: Let_def split_beta split: if_splits)
  from Cons.IH [OF this(1)] this(2) show ?case
    by simp
qed

lemma start_loop_attempts_prefix:
  "\<forall>n\<in>set names. map_of reg n \<noteq> None \<Longrightarrow>
   \<exists>k\<le>length names.
     start_attempts (log (snd (start_loop e reg names failed st)))
       = start_attempts (log st) @ take k names
     \<and> ((\<exists>f. fst (start_loop e reg names failed st) = Completed f) \<longrightarrow> k = length names)
     \<and> (names \<noteq> [] \<longrightarrow> 0 < k)"
proof (induction names arbitrary: failed st)
  case Nil
  then show ?case by simp
next
  case (Cons name rest)
  from Cons.prems obtain cfg where cfg: "map_of reg name = Some cfg"
    by auto
  from Cons.prems have rest: "\<forall>n\<in>set rest. map_of reg n \<noteq> None"
    by simp
  let ?st1 = "snd (start_component e reg (say [Print_starting name] st) name)"
  have a1: "start_attempts (log ?st1) = start_attempts (log st) @ [name]"
    by simp
  let ?r = "start_loop e reg (name # rest) failed st"
  let ?ok = "fst (start_component e reg (say [Print_starting name] st) name)"
  let ?d = "startup_delay cfg"
  have unfold: "?r = (if ?ok
          then (if 0 < ?d
                then (if sleep_raises e ?d
                      then (Overflow_error, say [Print_waiting ?d] ?st1)
                      else start_loop e reg rest failed (say [Print_waiting ?d] ?st1))
                else start_loop e reg rest failed ?st1)
          else if critical cfg then (Aborted, say [Print_critical_abort name] ?st1)
          else start_loop e reg rest (failed @ [name]) ?st1)"
    using cfg by (simp add: Let_def split_beta)
  have "(\<exists>x ev. ?r = (x, say [ev] ?st1) \<and> (\<forall>f. x \<noteq> Completed f) \<and> starting_name ev = None)
        \<or> (\<exists>f st'. ?r = start_loop e reg rest f st'
                      \<and> start_attempts (log st') = start_attempts (log ?st1))"
  proof (cases ?ok)
    case True
    show ?thesis
    proof (cases "0 < ?d")
      case False
      with True unfold have "?r = start_loop e reg rest failed ?st1"
        by simp
      then show ?thesis
        by blast
    next
      case pos: True
      show ?thesis
      proof (cases "sleep_raises e ?d")
        case True
        with \<open>?ok\<close> pos unfold
        have "?r = (Overflow_error, say [Print_waiting ?d] ?st1)"
          by simp
        then have "?r = (Overflow_error, say [Print_waiting ?d] ?st1)
                   \<and> (\<forall>f. Overflow_error \<noteq> Completed f)
                   \<and> starting_name (Print_waiting ?d) = None"
          by simp
        then show ?thesis
          by blast
      next
        case False
        with \<open>?ok\<close> pos unfold
        have "?r = start_loop e reg rest failed (say [Print_waiting ?d] ?st1)"
          by simp
        moreover have "start_attempts (log (say [Print_waiting ?d] ?st1))
                         = start_attempts (log ?st1)"
          by simp
        ultimately show ?thesis
          by blast
      qed
    qed
  next
    case False
    show ?thesis
    proof (cases "critical cfg")
      case True
      with False unfold have "?r = (Aborted, say [Print_critical_abort name] ?st1)"
        by simp
      then have "?r = (Aborted, say [Print_critical_abort name] ?st1)
                 \<and> (\<forall>f. Aborted \<noteq> Completed f)
                 \<and> starting_name (Print_critical_abort name) = None"
        by simp
      then show ?thesis
        by blast
    next
      case nc: False
      with False unfold have "?r = start_loop e reg rest (failed @ [name]) ?st1"
        by simp
      then show ?thesis
        by blast
    qed
  qed
  then consider (stop) x ev where "?r = (x, say [ev] ?st1)" "\<forall>f. x \<noteq> Completed f"
                                  "starting_name ev = None"
    | (go) f st' where "?r = start_loop e reg rest f st'"
                       "start_attempts (log st') = start_attempts (log ?st1)"
    by blast
  then show ?case
  proof cases
    case stop
    then have "start_attempts (log (snd ?r)) = start_attempts (log st) @ take 1 (name # rest)"
      using a1 by simp
    with stop(1,2) show ?thesis
      by (intro exI [of _ 1]) simp
  next
    case go
    from Cons.IH [OF rest, of f st'] obtain k where k: "k \<le> length rest"
      "start_attempts (log (snd (start_loop e reg rest f st')))
         = start_attempts (log st') @ take k rest"
      "(\<exists>g. fst (start_loop e reg rest f st') = Completed g) \<longrightarrow> k = length rest"
      by blast
    from k(2) go a1
    have "start_attempts (log (snd ?r)) = start_attempts (log st) @ take (Suc k) (name # rest)"
      by simp
    with k(1,3) go(1) show ?thesis
      by (intro exI [of _ "Suc k"]) simp
  qed
qed

text \<open>
  C7. Let the startup order be \<open>pre @ c # post\<close>, let the loop get through \<open>pre\<close>
  without aborting, and let the critical component \<open>c\<close> fail to start. Then \<^verbatim>\<open>start_all\<close>
  returns \<^verbatim>\<open>False\<close>; the running map without an entry of \<open>c\<close> is exactly what it was
  after \<open>pre\<close>, so nothing started earlier is stopped or changed (and the map as a whole is
  what it was after \<open>pre\<close> unless the wait for the startup delay of \<open>c\<close> raised, which
  leaves the entry of \<open>c\<close> behind); and the components attempted are \<open>pre\<close> and \<open>c\<close>:
  none of \<open>post\<close>.
\<close>

theorem critical_start_failure_aborts:
  assumes order: "get_startup_order e reg st = (pre @ c # post, st0)"
    and reached: "start_loop e reg pre [] (say [Info_startup_order (pre @ c # post)] st0)
                    = (Completed failed, st1)"
    and cfg: "map_of reg c = Some cfg" and crit: "critical cfg"
    and fails: "\<not> fst (start_component e reg (say [Print_starting c] st1) c)"
  shows "fst (start_all e reg st) = Some False
     \<and> AList.delete c (processes (snd (start_all e reg st))) = processes st1
     \<and> (\<forall>n. n \<noteq> c \<longrightarrow>
           map_of (processes (snd (start_all e reg st))) n = map_of (processes st1) n)
     \<and> (\<not> (0 < startup_delay cfg \<and> sleep_raises e (startup_delay cfg)) \<longrightarrow>
           processes (snd (start_all e reg st)) = processes st1)
     \<and> start_attempts (log (snd (start_all e reg st))) = start_attempts (log st) @ pre @ [c]"
proof -
  let ?st2 = "snd (start_component e reg (say [Print_starting c] st1) c)"
  have loop: "start_loop e reg (pre @ c # post) [] (say [Info_startup_order (pre @ c # post)] st0)
                = (Aborted, say [Print_critical_abort c] ?st2)"
    using start_loop_append [OF reached, of "c # post"] cfg crit fails
    by (simp add: Let_def split_beta)
  then have all: "start_all e reg st = (Some False, say [Print_critical_abort c] ?st2)"
    by (simp add: start_all_def order)
  have p: "AList.delete c (processes ?st2) = processes st1"
    using start_component_failure_frame [OF fails] by simp
  have q: "map_of (processes ?st2) n = map_of (processes st1) n" if "n \<noteq> c" for n
    using start_component_entry_other [OF that, of e reg "say [Print_starting c] st1"] by simp
  have r: "processes ?st2 = processes st1"
    if "\<not> (0 < startup_delay cfg \<and> sleep_raises e (startup_delay cfg))"
    using start_component_failure_keeps_processes [OF fails cfg that] by simp
  have "start_attempts (log st0) = start_attempts (log st)"
    using start_attempts_get_startup_order [of e reg st] order by simp
  with start_loop_attempts [OF reached]
  have a: "start_attempts (log st1) = start_attempts (log st) @ pre"
    by simp
  from all p q r a show ?thesis
    by simp
qed

theorem critical_start_failure_aborts_witness:
  "fst (start_all c_dies abcd_registry init_orch) = Some False
   \<and> map fst (processes (snd (start_all c_dies abcd_registry init_orch))) = [''A'', ''B'']
   \<and> start_attempts (log (snd (start_all c_dies abcd_registry init_orch))) = [''A'', ''B'', ''C'']"
proof -
  let ?st1 = "snd (start_loop c_dies abcd_registry [''A'', ''B''] []
                 (say [Info_startup_order ([''A'', ''B''] @ ''C'' # [''D''])] init_orch))"
  let ?cfg = "plain\<lparr>dependencies := [''A'', ''B''], critical := True\<rparr>"
  have order: "get_startup_order c_dies abcd_registry init_orch
                 = ([''A'', ''B''] @ ''C'' # [''D''], init_orch)"
    by code_simp
  have reached: "start_loop c_dies abcd_registry [''A'', ''B''] []
                   (say [Info_startup_order ([''A'', ''B''] @ ''C'' # [''D''])] init_orch)
                 = (Completed [], ?st1)"
    by code_simp
  have cfg: "map_of abcd_registry ''C'' = Some ?cfg"
    by (simp add: abcd_registry_def abc_registry_def)
  have crit: "critical ?cfg"
    by simp
  have fails: "\<not> fst (start_component c_dies abcd_registry (say [Print_starting ''C''] ?st1) ''C'')"
    by code_simp
  have keys: "map fst (processes ?st1) = [''A'', ''B'']"
    by code_simp
  have quick: "\<not> (0 < startup_delay ?cfg \<and> sleep_raises c_dies (startup_delay ?cfg))"
    by (simp add: plain_def)
  from critical_start_failure_aborts [OF order reached cfg crit fails] keys quick
  show ?thesis
    by (simp add: init_orch_def)
qed

section \<open>The resolver on cycles, and the order inside a batch\<close>

lemma startup_order_in_registry:
  "n \<in> set (fst (resolve e reg)) \<Longrightarrow> map_of reg n \<noteq> None"
proof -
  assume n: "n \<in> set (fst (resolve e reg))"
  obtain ord unres where res: "resolve e reg = (ord, unres)"
    by (cases "resolve e reg")
  with n resolve_facts(4) [OF res] have "n \<in> set (active_components e reg)"
    by auto
  then have "n \<in> fst ` set reg"
    by (simp add: set_active_components)
  then show ?thesis
    by (simp add: map_of_eq_None_iff)
qed

lemma start_all_attempts:
  "\<exists>k\<le>length (fst (get_startup_order e reg st)).
     start_attempts (log (snd (start_all e reg st)))
       = start_attempts (log st) @ take k (fst (get_startup_order e reg st))
     \<and> (fst (start_all e reg st) = Some True \<longrightarrow> k = length (fst (get_startup_order e reg st)))
     \<and> (fst (get_startup_order e reg st) \<noteq> [] \<longrightarrow> 0 < k)"
proof -
  let ?ord = "fst (get_startup_order e reg st)"
  let ?st0 = "say [Info_startup_order ?ord] (snd (get_startup_order e reg st))"
  let ?r = "start_loop e reg ?ord [] ?st0"
  have "\<forall>n\<in>set ?ord. map_of reg n \<noteq> None"
    by (simp add: fst_get_startup_order startup_order_in_registry)
  from start_loop_attempts_prefix [OF this, of e "[]" ?st0]
  obtain k where k: "k \<le> length ?ord"
    "start_attempts (log (snd ?r)) = start_attempts (log ?st0) @ take k ?ord"
    "(\<exists>f. fst ?r = Completed f) \<longrightarrow> k = length ?ord" "?ord \<noteq> [] \<longrightarrow> 0 < k"
    by blast
  have l0: "start_attempts (log ?st0) = start_attempts (log st)"
    by simp
  have la: "start_attempts (log (snd (start_all e reg st))) = start_attempts (log (snd ?r))"
    by (cases ?r rule: prod.exhaust [case_names Pair], cases "fst ?r")
       (auto simp: start_all_def split_beta)
  have lb: "\<exists>f. fst ?r = Completed f" if "fst (start_all e reg st) = Some True"
    using that by (cases "fst ?r") (auto simp: start_all_def split_beta)
  from k l0 la lb show ?thesis
    by (intro exI [of _ k]) auto
qed

text \<open>
  C3 (as the code has it). When a component lies on a dependency cycle of the non-excluded
  components, \<^verbatim>\<open>get_startup_order\<close> raises nothing: it writes one error line that carries
  the unresolved set and returns the partial order. The unresolved set contains the component
  and is exactly the set of non-excluded components missing from the returned order. The
  returned order has no duplicates and places every non-excluded dependency of a component
  in it before that component, and it is as long as it can be: each unresolved component
  depends on an unresolved one. The running map is untouched. \<^verbatim>\<open>start_all\<close> then goes on
  over the returned order: the components it attempts are an initial part of the order,
  beginning with the first, and all of it when \<^verbatim>\<open>start_all\<close> returns \<^verbatim>\<open>True\<close>.
\<close>

theorem cycle_is_logged_and_startup_proceeds:
  assumes cyc: "(c, c) \<in> (dep_graph e reg)\<^sup>+"
  shows "c \<in> set (snd (resolve e reg))
     \<and> c \<notin> set (fst (get_startup_order e reg st))
     \<and> set (snd (resolve e reg))
         = set (active_components e reg) - set (fst (get_startup_order e reg st))
     \<and> distinct (fst (get_startup_order e reg st))
     \<and> (\<forall>x\<in>set (fst (get_startup_order e reg st)). \<forall>d\<in>set (deps_of reg x).
           d \<in> set (active_components e reg) \<longrightarrow>
           precedes (fst (get_startup_order e reg st)) d x)
     \<and> (\<forall>u\<in>set (snd (resolve e reg)). \<exists>d\<in>set (deps_of reg u). d \<in> set (snd (resolve e reg)))
     \<and> log (snd (get_startup_order e reg st))
         = log st @ map Info_optional_not_found
                      (filter (excluded e reg) (set_iteration e (map fst reg)))
            @ [Error_circular_or_missing (snd (resolve e reg))]
     \<and> processes (snd (get_startup_order e reg st)) = processes st
     \<and> (\<exists>k\<le>length (fst (get_startup_order e reg st)).
           start_attempts (log (snd (start_all e reg st)))
             = start_attempts (log st) @ take k (fst (get_startup_order e reg st))
           \<and> (fst (start_all e reg st) = Some True \<longrightarrow>
                k = length (fst (get_startup_order e reg st)))
           \<and> (fst (get_startup_order e reg st) \<noteq> [] \<longrightarrow> 0 < k))"
proof -
  obtain ord unres where res: "resolve e reg = (ord, unres)"
    by (cases "resolve e reg")
  from cycle_member_unresolved [OF res cyc] have c: "c \<in> set unres" "c \<notin> set ord"
    by simp_all
  then have ne: "unres \<noteq> []"
    by auto
  from resolve_facts(3,4) [OF res]
  have part: "set unres = set (active_components e reg) - set ord"
    by blast
  have stuck: "\<exists>d\<in>set (deps_of reg u). d \<in> set unres" if u: "u \<in> set unres" for u
  proof -
    from resolve_facts(5) [OF res] u have "\<not> is_ready reg ord unres u"
      using set_ready_batch [of reg ord unres] by auto
    then show ?thesis
      by (auto simp: is_ready_def list_all_iff)
  qed
  have lg: "log (snd (get_startup_order e reg st))
         = log st @ map Info_optional_not_found
                      (filter (excluded e reg) (set_iteration e (map fst reg)))
            @ [Error_circular_or_missing unres]"
    using ne by (simp add: get_startup_order_def res Let_def)
  have o: "fst (get_startup_order e reg st) = ord" and u: "snd (resolve e reg) = unres"
    by (simp_all add: fst_get_startup_order res)
  show ?thesis
    unfolding u
    using c part resolve_facts(1) [OF res] resolve_facts(6) [OF res] stuck lg
      start_all_attempts [of e reg st]
    unfolding o by (intro conjI) simp_all
qed

lemma cyclic_has_cycle: "(''a'', ''a'') \<in> (dep_graph calm cyclic_registry)\<^sup>+"
proof -
  have act: "active_components calm cyclic_registry = [''a'', ''b'', ''c'']"
    by (simp add: active_components_def set_iteration_def calm_def cyclic_registry_def
        excluded_def plain_def)
  have deps: "deps_of cyclic_registry ''a'' = [''b'']" "deps_of cyclic_registry ''b'' = [''a'']"
    by (simp_all add: deps_of_def cyclic_registry_def plain_def)
  have "(''a'', ''b'') \<in> dep_graph calm cyclic_registry"
    and "(''b'', ''a'') \<in> dep_graph calm cyclic_registry"
    by (simp_all add: dep_graph_def act deps)
  then show ?thesis
    by (rule trancl_trans [OF r_into_trancl r_into_trancl])
qed

theorem cycle_is_logged_and_startup_proceeds_witness:
  "(''a'', ''a'') \<in> (dep_graph calm cyclic_registry)\<^sup>+
   \<and> ''a'' \<in> set (snd (resolve calm cyclic_registry))
   \<and> ''a'' \<notin> set (fst (get_startup_order calm cyclic_registry init_orch))
   \<and> fst (get_startup_order calm cyclic_registry init_orch) = [''c'']
   \<and> start_attempts (log (snd (start_all calm cyclic_registry init_orch))) = [''c'']"
proof -
  have ord: "fst (get_startup_order calm cyclic_registry init_orch) = [''c'']"
    by code_simp
  have ok: "fst (start_all calm cyclic_registry init_orch) = Some True"
    by code_simp
  note t = cycle_is_logged_and_startup_proceeds [OF cyclic_has_cycle, of init_orch]
  from t obtain k where
    "start_attempts (log (snd (start_all calm cyclic_registry init_orch)))
       = start_attempts (log init_orch)
         @ take k (fst (get_startup_order calm cyclic_registry init_orch))"
    "fst (start_all calm cyclic_registry init_orch) = Some True \<longrightarrow>
       k = length (fst (get_startup_order calm cyclic_registry init_orch))"
    by blast
  with ok ord
  have a: "start_attempts (log (snd (start_all calm cyclic_registry init_orch))) = [''c'']"
    by (simp add: init_orch_def)
  from t have "''a'' \<in> set (snd (resolve calm cyclic_registry))"
    and "''a'' \<notin> set (fst (get_startup_order calm cyclic_registry init_orch))"
    by blast+
  with cyclic_has_cycle ord a show ?thesis
    by blast
qed

theorem cycle_raises_nothing_counterexample:
  "fst (get_startup_order calm cyclic_registry init_orch) = [''c'']
   \<and> log (snd (get_startup_order calm cyclic_registry init_orch))
       = [Error_circular_or_missing [''a'', ''b'']]
   \<and> fst (start_all calm cyclic_registry init_orch) = Some True
   \<and> map fst (processes (snd (start_all calm cyclic_registry init_orch))) = [''c'']
   \<and> get_startup_order calm ghost_registry init_orch = ([''m''], init_orch)"
  by code_simp

lemma insort_key_agree:
  "\<forall>y\<in>set (x # xs). f y = g y \<Longrightarrow> insort_key f x xs = insort_key g x xs"
  by (induction xs) auto

lemma sort_key_agree:
  "\<forall>x\<in>set xs. f x = g x \<Longrightarrow> sort_key f xs = sort_key g xs"
proof (induction xs)
  case Nil
  then show ?case by simp
next
  case (Cons x xs)
  then have "sort_key f xs = sort_key g xs"
    by simp
  moreover have "insort_key f x (sort_key g xs) = insort_key g x (sort_key g xs)"
    using Cons.prems by (intro insort_key_agree) simp
  ultimately show ?case
    by simp
qed

lemma active_components_agree:
  assumes "\<forall>c\<in>fst ` set reg. hash_slot e c = hash_slot e' c \<and> excluded e reg c = excluded e' reg c"
  shows "active_components e reg = active_components e' reg"
proof -
  have "set_iteration e (map fst reg) = set_iteration e' (map fst reg)"
    unfolding set_iteration_def using assms by (intro sort_key_agree) simp
  moreover have "filter (\<lambda>c. \<not> excluded e reg c) (set_iteration e' (map fst reg))
      = filter (\<lambda>c. \<not> excluded e' reg c) (set_iteration e' (map fst reg))"
    using assms by (intro filter_cong) (auto simp: set_iteration_def)
  ultimately show ?thesis
    by (simp add: active_components_def)
qed

text \<open>
  C9 (as the code has it). The batch appended in one resolver iteration is sorted by ascending
  startup delay; among components of equal delay it keeps the order in which the set
  \<^verbatim>\<open>remaining\<close> iterates (the sort is stable and has no second key); the loop goes on with
  the batch appended. The order returned is the same in any two environments that agree on
  the hash slots of the registry's names and on which components are excluded.
\<close>

theorem ready_batch_by_delay_then_iteration_order:
  "sorted (map (delay_of reg) (ready_batch reg ordered remaining))
   \<and> filter (\<lambda>c. delay_of reg c = k) (ready_batch reg ordered remaining)
       = filter (\<lambda>c. delay_of reg c = k) (filter (is_ready reg ordered remaining) remaining)
   \<and> (remaining \<noteq> [] \<and> ready_batch reg ordered remaining \<noteq> [] \<longrightarrow>
        resolve_loop reg ordered remaining
          = resolve_loop reg (ordered @ ready_batch reg ordered remaining)
              (filter (\<lambda>c. c \<notin> set (ready_batch reg ordered remaining)) remaining))
   \<and> ((\<forall>c\<in>fst ` set reg. hash_slot e c = hash_slot e' c
                            \<and> excluded e reg c = excluded e' reg c) \<longrightarrow>
        fst (get_startup_order e reg st) = fst (get_startup_order e' reg st'))"
proof (intro conjI impI)
  show "sorted (map (delay_of reg) (ready_batch reg ordered remaining))"
    by (simp add: ready_batch_def)
  show "filter (\<lambda>c. delay_of reg c = k) (ready_batch reg ordered remaining)
       = filter (\<lambda>c. delay_of reg c = k) (filter (is_ready reg ordered remaining) remaining)"
    unfolding ready_batch_def by (rule sort_key_stable)
  show "resolve_loop reg ordered remaining
          = resolve_loop reg (ordered @ ready_batch reg ordered remaining)
              (filter (\<lambda>c. c \<notin> set (ready_batch reg ordered remaining)) remaining)"
    if "remaining \<noteq> [] \<and> ready_batch reg ordered remaining \<noteq> []"
    using that by (simp add: resolve_loop.simps [of reg ordered remaining] Let_def)
  show "fst (get_startup_order e reg st) = fst (get_startup_order e' reg st')"
    if "\<forall>c\<in>fst ` set reg. hash_slot e c = hash_slot e' c \<and> excluded e reg c = excluded e' reg c"
    using active_components_agree [OF that]
    by (simp add: fst_get_startup_order resolve_def)
qed

theorem ready_batch_by_delay_then_iteration_order_witness:
  "sorted (map (delay_of delays_registry) (ready_batch delays_registry [] [''x'', ''y'', ''z'']))
   \<and> ready_batch delays_registry [] [''x'', ''y'', ''z''] = [''y'', ''x'', ''z'']
   \<and> filter (\<lambda>c. delay_of delays_registry c = 5) (ready_batch delays_registry [] [''x'', ''y'', ''z''])
       = filter (\<lambda>c. delay_of delays_registry c = 5)
           (filter (is_ready delays_registry [] [''x'', ''y'', ''z'']) [''x'', ''y'', ''z''])
   \<and> resolve_loop delays_registry [] [''x'', ''y'', ''z'']
       = resolve_loop delays_registry ([] @ ready_batch delays_registry [] [''x'', ''y'', ''z''])
           (filter (\<lambda>c. c \<notin> set (ready_batch delays_registry [] [''x'', ''y'', ''z'']))
              [''x'', ''y'', ''z''])
   \<and> fst (get_startup_order calm delays_registry init_orch)
       = fst (get_startup_order deaf delays_registry worker_started)"
proof -
  have b: "ready_batch delays_registry [] [''x'', ''y'', ''z''] = [''y'', ''x'', ''z'']"
    by code_simp
  then have ne: "[''x'', ''y'', ''z''] \<noteq> [] \<and> ready_batch delays_registry [] [''x'', ''y'', ''z''] \<noteq> []"
    by simp
  have ex: "excluded calm delays_registry c = excluded deaf delays_registry c" for c
    by (cases "map_of delays_registry c") (simp_all add: excluded_def deaf_def)
  have h: "\<forall>c\<in>fst ` set delays_registry.
             hash_slot calm c = hash_slot deaf c
             \<and> excluded calm delays_registry c = excluded deaf delays_registry c"
    using ex by (simp add: deaf_def)
  note t = ready_batch_by_delay_then_iteration_order
         [of delays_registry "[]" "[''x'', ''y'', ''z'']" 5 calm deaf init_orch worker_started]
  from t have t1: "sorted (map (delay_of delays_registry)
                      (ready_batch delays_registry [] [''x'', ''y'', ''z'']))"
    by (rule conjunct1)
  from t have t2: "filter (\<lambda>c. delay_of delays_registry c = 5) (ready_batch delays_registry [] [''x'', ''y'', ''z''])
       = filter (\<lambda>c. delay_of delays_registry c = 5)
           (filter (is_ready delays_registry [] [''x'', ''y'', ''z'']) [''x'', ''y'', ''z''])"
    by (rule conjunct1 [OF conjunct2])
  from t ne have t3: "resolve_loop delays_registry [] [''x'', ''y'', ''z'']
       = resolve_loop delays_registry ([] @ ready_batch delays_registry [] [''x'', ''y'', ''z''])
           (filter (\<lambda>c. c \<notin> set (ready_batch delays_registry [] [''x'', ''y'', ''z'']))
              [''x'', ''y'', ''z''])"
    by (rule mp [OF conjunct1 [OF conjunct2 [OF conjunct2]]])
  from t h have t4: "fst (get_startup_order calm delays_registry init_orch)
       = fst (get_startup_order deaf delays_registry worker_started)"
    by (rule mp [OF conjunct2 [OF conjunct2 [OF conjunct2]]])
  from t1 b t2 t3 t4 show ?thesis
    by (intro conjI)
qed

theorem equal_delay_order_not_by_name_counterexample:
  "delay_of twins ''a'' = delay_of twins ''b''
   \<and> ''a'' < ''b''
   \<and> fst (get_startup_order b_first twins init_orch) = [''b'', ''a'']
   \<and> fst (get_startup_order calm twins init_orch) = [''a'', ''b'']"
  by code_simp

section \<open>The restart counter\<close>

lemma start_component_fresh:
  assumes "map_of (processes st) name = None" and "map_of reg name = Some cfg"
    and "script_exists e (script cfg)" and "dependencies cfg = []"
    and "popen e name = Alive_after_delay" and "startup_delay cfg = 0"
  shows "fst (start_component e reg st name)"
    and "processes (snd (start_component e reg st name))
           = AList.update name \<lparr>restart_count = 0, component_info = cfg\<rparr> (processes st)"
    and "log (snd (start_component e reg st name))
           = log st @ [Info_starting_component name, Info_started name]"
    and "running (snd (start_component e reg st name)) = running st"
  using assms
  by (simp_all add: start_component_def check_component_dependencies_def deps_of_def)

lemma stop_component_clean:
  assumes "map_of (processes st) name \<noteq> None" and "terminate e name = Exits_in_time"
  shows "processes (snd (stop_component e st name)) = AList.delete name (processes st)"
    and "log (snd (stop_component e st name)) = log st @ [Info_stopping name, Info_stopped name]"
    and "running (snd (stop_component e st name)) = running st"
  using assms by (auto simp: stop_component_def)

lemma worker_facts:
  "map_of worker_registry ''w'' = Some worker_cfg" "script_exists calm (script worker_cfg)"
  "dependencies worker_cfg = []" "popen calm ''w'' = Alive_after_delay"
  "script_exists deaf (script worker_cfg)" "popen deaf ''w'' = Alive_after_delay"
  "terminate deaf ''w'' = Exits_in_time" "restart_policy worker_cfg = ''on_failure''"
  "port worker_cfg = Some 9090" "\<not> port_open deaf ''w''" "poll_alive deaf ''w''"
  "startup_delay worker_cfg = 0"
  by (simp_all add: worker_registry_def worker_cfg_def calm_def deaf_def plain_def)

lemma processes_worker_started:
  "processes worker_started = [(''w'', \<lparr>restart_count = 0, component_info = worker_cfg\<rparr>)]"
  unfolding worker_started_def
  by (subst start_component_fresh(2) [where cfg = worker_cfg])
     (simp_all add: worker_facts init_orch_def)

lemma worker_restart:
  assumes p: "processes st = processes worker_started"
  shows "processes (restart_component deaf worker_registry st ''w'') = processes worker_started"
    and "running (restart_component deaf worker_registry st ''w'') = running st"
    and "log (restart_component deaf worker_registry st ''w'')
           = log st @ [Print_restarting ''w'', Info_stopping ''w'', Info_stopped ''w'',
                       Info_starting_component ''w'', Info_started ''w'']"
proof -
  let ?st1 = "bump_restart_count (say [Print_restarting ''w''] st) ''w''"
  let ?st2 = "snd (stop_component deaf ?st1 ''w'')"
  have b: "processes ?st1 = [(''w'', \<lparr>restart_count = 1, component_info = worker_cfg\<rparr>)]"
    "log ?st1 = log st @ [Print_restarting ''w'']" "running ?st1 = running st"
    using p by (simp_all add: bump_restart_count_def processes_worker_started)
  then have r: "map_of (processes ?st1) ''w'' \<noteq> None"
    by simp
  note s = stop_component_clean [OF r worker_facts(7)]
  from s(1) b(1) have e: "processes ?st2 = []"
    by simp
  then have f: "map_of (processes ?st2) ''w'' = None"
    by simp
  note t = start_component_fresh [OF f worker_facts(1) worker_facts(5) worker_facts(3)
      worker_facts(6) worker_facts(12)]
  have rc: "restart_component deaf worker_registry st ''w''
              = snd (start_component deaf worker_registry ?st2 ''w'')"
    by (simp add: restart_component_def Let_def)
  show "processes (restart_component deaf worker_registry st ''w'') = processes worker_started"
    unfolding rc t(2) e by (simp add: processes_worker_started)
  show "running (restart_component deaf worker_registry st ''w'') = running st"
    unfolding rc t(4) s(3) b(3) ..
  show "log (restart_component deaf worker_registry st ''w'')
           = log st @ [Print_restarting ''w'', Info_stopping ''w'', Info_stopped ''w'',
                       Info_starting_component ''w'', Info_started ''w'']"
    unfolding rc t(3) s(2) b(2) by simp
qed

lemma worker_unhealthy:
  "processes st = processes worker_started \<Longrightarrow> \<not> check_component_health deaf st ''w''"
  by (simp add: check_component_health_def processes_worker_started worker_facts)

lemma worker_iteration:
  assumes p: "processes st = processes worker_started"
  shows "fst (monitor_iteration deaf worker_registry st) = []"
    and "fst (snd (monitor_iteration deaf worker_registry st)) = None"
    and "processes (snd (snd (monitor_iteration deaf worker_registry st))) = processes worker_started"
    and "running (snd (snd (monitor_iteration deaf worker_registry st))) = running st"
    and "log (snd (snd (monitor_iteration deaf worker_registry st)))
           = log st @ [Warn_health_check_failed ''w'', Info_auto_restart_on_failure ''w'' 1,
                       Print_restarting ''w'', Info_stopping ''w'', Info_stopped ''w'',
                       Info_starting_component ''w'', Info_started ''w'']"
proof -
  let ?st1 = "say [Info_auto_restart_on_failure ''w'' 1] (say [Warn_health_check_failed ''w''] st)"
  have p1: "processes ?st1 = processes worker_started"
    using p by simp
  have scan: "monitor_scan deaf worker_registry (map fst (processes st)) [] st
                = (False, [], restart_component deaf worker_registry ?st1 ''w'')"
    using worker_unhealthy [OF p] p
    by (simp add: processes_worker_started worker_facts restart_count_of_def)
  then have it: "monitor_iteration deaf worker_registry st
                = ([], None, restart_component deaf worker_registry ?st1 ''w'')"
    by (simp add: monitor_iteration_def)
  show "fst (monitor_iteration deaf worker_registry st) = []"
    and "fst (snd (monitor_iteration deaf worker_registry st)) = None"
    by (simp_all add: it)
  show "processes (snd (snd (monitor_iteration deaf worker_registry st))) = processes worker_started"
    by (simp add: it worker_restart(1) p)
  show "running (snd (snd (monitor_iteration deaf worker_registry st))) = running st"
    by (simp add: it worker_restart(2) p)
  show "log (snd (snd (monitor_iteration deaf worker_registry st)))
           = log st @ [Warn_health_check_failed ''w'', Info_auto_restart_on_failure ''w'' 1,
                       Print_restarting ''w'', Info_stopping ''w'', Info_stopped ''w'',
                       Info_starting_component ''w'', Info_started ''w'']"
    by (simp add: it worker_restart(3) p)
qed

lemma worker_loop:
  assumes "processes st = processes worker_started" and "running st"
  shows "processes (monitor_loop (replicate n deaf) worker_registry st) = processes worker_started
     \<and> length (filter (\<lambda>ev. ev = Print_restarting ''w'')
                 (log (monitor_loop (replicate n deaf) worker_registry st)))
         = length (filter (\<lambda>ev. ev = Print_restarting ''w'') (log st)) + n
     \<and> length (filter (\<lambda>ev. ev = Error_restart_limit ''w'')
                 (log (monitor_loop (replicate n deaf) worker_registry st)))
         = length (filter (\<lambda>ev. ev = Error_restart_limit ''w'') (log st))"
  using assms
proof (induction n arbitrary: st)
  case 0
  then show ?case by simp
next
  case (Suc n)
  let ?st' = "snd (snd (monitor_iteration deaf worker_registry st))"
  note w = worker_iteration [OF Suc.prems(1)]
  have "running ?st'"
    using w(4) Suc.prems(2) by simp
  from Suc.IH [OF w(3) this] Suc.prems(2) show ?case
    by (simp add: w(5))
qed

text \<open>
  C1 (the code at a failing input). The worker has policy \<^verbatim>\<open>on_failure\<close>, is alive, and its
  port never answers, so every probe finds it unhealthy. After any number \<open>n\<close> of monitor
  iterations it has been restarted \<open>n\<close> times, its counter reads 0 again (line 349 stores
  \<^verbatim>\<open>'restart_count': 0\<close> in the new instance), the restart limit was never reported, and the
  next iteration's failed set is empty: the ceiling of 3 is never reached.
\<close>

theorem on_failure_restarts_never_stop:
  "processes (monitor_loop (replicate n deaf) worker_registry worker_started)
     = [(''w'', \<lparr>restart_count = 0, component_info = worker_cfg\<rparr>)]
   \<and> \<not> check_component_health deaf
          (monitor_loop (replicate n deaf) worker_registry worker_started) ''w''
   \<and> restart_count_of (monitor_loop (replicate n deaf) worker_registry worker_started) ''w'' = 0
   \<and> fst (monitor_iteration deaf worker_registry
            (monitor_loop (replicate n deaf) worker_registry worker_started)) = []
   \<and> length (filter (\<lambda>ev. ev = Print_restarting ''w'')
               (log (monitor_loop (replicate n deaf) worker_registry worker_started))) = n
   \<and> length (filter (\<lambda>ev. ev = Error_restart_limit ''w'')
               (log (monitor_loop (replicate n deaf) worker_registry worker_started))) = 0"
proof -
  let ?st = "monitor_loop (replicate n deaf) worker_registry worker_started"
  have run: "running worker_started"
    unfolding worker_started_def
    by (subst start_component_fresh(4) [where cfg = worker_cfg])
       (simp_all add: worker_facts init_orch_def)
  have lg: "log worker_started = [Info_starting_component ''w'', Info_started ''w'']"
    unfolding worker_started_def
    by (subst start_component_fresh(3) [where cfg = worker_cfg])
       (simp_all add: worker_facts init_orch_def)
  note l = worker_loop [OF refl run, of n]
  from l have p: "processes ?st = processes worker_started"
    by simp
  from l lg p worker_unhealthy [OF p] worker_iteration(1) [OF p] show ?thesis
    by (simp add: processes_worker_started restart_count_of_def)
qed

text \<open>
  C2 (the code at a failing input). \<^verbatim>\<open>restart_component\<close> raises the counter of the running
  instance to 1 (line 632) and the start that follows stores 0 (line 349). Across operations:
  after a restart whose stop raised, the counter is 1; after the next restart it is 0.
\<close>

theorem restart_resets_counter:
  "restart_count_of worker_started ''w'' = 0
   \<and> restart_count_of (bump_restart_count worker_started ''w'') ''w'' = 1
   \<and> restart_count_of (restart_component calm worker_registry worker_started ''w'') ''w'' = 0
   \<and> restart_count_of (run worker_registry [(Start ''w'', calm), (Restart ''w'', jammed)]) ''w'' = 1
   \<and> restart_count_of
         (run worker_registry [(Start ''w'', calm), (Restart ''w'', jammed), (Restart ''w'', calm)])
         ''w'' = 0"
  by code_simp

text \<open>
  C5 (the code at a failing input). The optional \<^verbatim>\<open>y\<close> has no script: the resolver leaves it
  out and plans its dependent \<^verbatim>\<open>x\<close>, but \<^verbatim>\<open>start_component\<close> checks \<^verbatim>\<open>y\<close> all the
  same, finds it missing from the running map and refuses to start \<^verbatim>\<open>x\<close>.
\<close>

theorem optional_dependency_blocks_dependent:
  "excluded no_y optional_dep_registry ''y''
   \<and> fst (get_startup_order no_y optional_dep_registry init_orch) = [''x'']
   \<and> start_component no_y optional_dep_registry init_orch ''x''
       = (False, say [Warn_dependency_not_running ''y'' ''x'', Error_dependencies_not_met ''x'']
                   init_orch)
   \<and> fst (start_all no_y optional_dep_registry init_orch) = Some False"
  by code_simp

section \<open>The monitor's failed set and the critical alert\<close>

lemma bump_restart_count_entry_other:
  "other \<noteq> name \<Longrightarrow>
   map_of (processes (bump_restart_count st name)) other = map_of (processes st) other"
  by (simp add: bump_restart_count_def update_conv' split: option.splits)

lemma restart_component_entry_other:
  "other \<noteq> name \<Longrightarrow>
   map_of (processes (restart_component e reg st name)) other = map_of (processes st) other"
  by (simp add: restart_component_def Let_def start_component_entry_other
      stop_component_entry_other bump_restart_count_entry_other)

lemma check_component_health_entry:
  "map_of (processes st) n = map_of (processes st') n \<Longrightarrow>
   check_component_health e st n = check_component_health e st' n"
  by (simp add: check_component_health_def)

lemma gives_up_entry:
  "map_of (processes st) n = map_of (processes st') n \<Longrightarrow> gives_up e st n = gives_up e st' n"
  using check_component_health_entry [of st n st' e]
  by (simp add: gives_up_def split: option.splits)

lemma monitor_scan_failed:
  "distinct names \<Longrightarrow> n \<in> set (fst (snd (monitor_scan e reg names failed st))) \<Longrightarrow>
   n \<in> set failed \<or> (n \<in> set names \<and> gives_up e st n)"
proof (induction names arbitrary: failed st)
  case Nil
  then show ?case by simp
next
  case (Cons name rest)
  from Cons.prems(1) have d: "distinct rest" and nr: "name \<notin> set rest"
    by simp_all
  show ?case
  proof (cases "check_component_health e st name")
    case True
    with Cons.prems(2) have "n \<in> set (fst (snd (monitor_scan e reg rest failed st)))"
      by simp
    from Cons.IH [OF d this] show ?thesis
      by auto
  next
    case unhealthy: False
    show ?thesis
    proof (cases "map_of (processes st) name")
      case None
      with unhealthy Cons.prems(2) show ?thesis
        by simp
    next
      case (Some info)
      let ?st1 = "say [Warn_health_check_failed name] st"
      have keep: "gives_up e st' n = gives_up e st n"
        if "n \<in> set rest" and "\<And>m. m \<noteq> name \<Longrightarrow> map_of (processes st') m = map_of (processes st) m"
        for st'
      proof -
        from that(1) nr have "n \<noteq> name" by auto
        from that(2) [OF this] show ?thesis
          by (rule gives_up_entry)
      qed
      consider (always) "restart_policy (component_info info) = ''always''"
        | (retry) "restart_policy (component_info info) = ''on_failure''" "restart_count info < 3"
        | (limit) "restart_policy (component_info info) = ''on_failure''" "\<not> restart_count info < 3"
        | (manual) "restart_policy (component_info info) \<noteq> ''always''"
                   "restart_policy (component_info info) \<noteq> ''on_failure''"
        by blast
      then show ?thesis
      proof cases
        case always
        let ?st2 = "restart_component e reg (say [Info_auto_restart_always name] ?st1) name"
        from Cons.prems(2) unhealthy Some always
        have "n \<in> set (fst (snd (monitor_scan e reg rest failed ?st2)))"
          by (simp add: Let_def)
        from Cons.IH [OF d this] keep [of ?st2] show ?thesis
          by (auto simp: restart_component_entry_other)
      next
        case retry
        let ?st2 = "restart_component e reg
                      (say [Info_auto_restart_on_failure name (restart_count info + 1)] ?st1) name"
        from Cons.prems(2) unhealthy Some retry
        have "n \<in> set (fst (snd (monitor_scan e reg rest failed ?st2)))"
          by (simp add: Let_def restart_count_of_def)
        from Cons.IH [OF d this] keep [of ?st2] show ?thesis
          by (auto simp: restart_component_entry_other)
      next
        case limit
        let ?st2 = "say [Error_restart_limit name] ?st1"
        from Cons.prems(2) unhealthy Some limit
        have "n \<in> set (fst (snd (monitor_scan e reg rest (failed @ [name]) ?st2)))"
          by (simp add: Let_def restart_count_of_def)
        from Cons.IH [OF d this] keep [of ?st2]
        have "n \<in> set failed \<or> n = name \<or> (n \<in> set rest \<and> gives_up e st n)"
          by auto
        moreover have "gives_up e st name"
          using unhealthy Some limit by (simp add: gives_up_def)
        ultimately show ?thesis
          by auto
      next
        case manual
        from Cons.prems(2) unhealthy Some manual
        have "n \<in> set (fst (snd (monitor_scan e reg rest (failed @ [name]) ?st1)))"
          by (simp add: Let_def)
        from Cons.IH [OF d this] keep [of ?st1]
        have "n \<in> set failed \<or> n = name \<or> (n \<in> set rest \<and> gives_up e st n)"
          by auto
        moreover have "gives_up e st name"
          using unhealthy Some manual by (simp add: gives_up_def)
        ultimately show ?thesis
          by auto
      qed
    qed
  qed
qed

lemma critical_failed_Some:
  "critical_failed reg failed = Some cs \<Longrightarrow> c \<in> set cs \<Longrightarrow>
   c \<in> set failed \<and> (\<exists>cfg. map_of reg c = Some cfg \<and> critical cfg)"
  by (auto simp: critical_failed_def split: if_splits option.splits)

lemma monitor_iteration_failed:
  "fst (monitor_iteration e reg st)
     = fst (snd (monitor_scan e reg (map fst (processes st)) [] st))"
  by (simp add: monitor_iteration_def split: prod.splits bool.splits option.splits)

lemma monitor_iteration_alert:
  "fst (snd (monitor_iteration e reg st)) = Some cs \<Longrightarrow>
   cs \<noteq> [] \<and> critical_failed reg (fst (monitor_iteration e reg st)) = Some cs"
  by (auto simp: monitor_iteration_def split: prod.splits bool.splits option.splits if_splits)

text \<open>
  C10. In one monitor iteration over a running map with distinct keys, every component added
  to the failed set was in the map, was unhealthy, has a policy other than \<^verbatim>\<open>always\<close>, and
  if its policy is \<^verbatim>\<open>on_failure\<close> its restart counter was at least 3. When a critical alert
  is raised, its list is not empty and each component in it is in the failed set and is
  critical in the registry. So no alert ever names a component whose policy is \<^verbatim>\<open>always\<close>.
\<close>

theorem critical_alert_never_for_always:
  assumes d: "distinct (map fst (processes st))"
  shows "(\<forall>n\<in>set (fst (monitor_iteration e reg st)).
            \<exists>info. map_of (processes st) n = Some info
              \<and> \<not> check_component_health e st n
              \<and> restart_policy (component_info info) \<noteq> ''always''
              \<and> (restart_policy (component_info info) = ''on_failure'' \<longrightarrow> 3 \<le> restart_count info))
     \<and> (\<forall>cs. fst (snd (monitor_iteration e reg st)) = Some cs \<longrightarrow>
            cs \<noteq> []
            \<and> (\<forall>c\<in>set cs. c \<in> set (fst (monitor_iteration e reg st))
                  \<and> (\<exists>cfg. map_of reg c = Some cfg \<and> critical cfg)))"
proof -
  have part1: "\<exists>info. map_of (processes st) n = Some info
              \<and> \<not> check_component_health e st n
              \<and> restart_policy (component_info info) \<noteq> ''always''
              \<and> (restart_policy (component_info info) = ''on_failure'' \<longrightarrow> 3 \<le> restart_count info)"
    if "n \<in> set (fst (monitor_iteration e reg st))" for n
  proof -
    from that have "n \<in> set (fst (snd (monitor_scan e reg (map fst (processes st)) [] st)))"
      by (simp add: monitor_iteration_failed)
    from monitor_scan_failed [OF d this] have "gives_up e st n"
      by simp
    then show ?thesis
      by (auto simp: gives_up_def split: option.splits)
  qed
  have part2: "cs \<noteq> []
            \<and> (\<forall>c\<in>set cs. c \<in> set (fst (monitor_iteration e reg st))
                  \<and> (\<exists>cfg. map_of reg c = Some cfg \<and> critical cfg))"
    if a: "fst (snd (monitor_iteration e reg st)) = Some cs" for cs
    using monitor_iteration_alert [OF a] critical_failed_Some [of reg _ cs]
    by blast
  from part1 part2 show ?thesis
    by blast
qed

theorem critical_alert_never_for_always_witness:
  "distinct (map fst (processes guard_started))
   \<and> map fst (processes guard_started) = [''a'', ''m'']
   \<and> \<not> check_component_health deaf guard_started ''a''
   \<and> fst (monitor_iteration deaf guard_registry guard_started) = [''m'']
   \<and> fst (snd (monitor_iteration deaf guard_registry guard_started)) = Some [''m'']
   \<and> \<not> check_component_health deaf guard_started ''m''"
proof -
  have keys: "map fst (processes guard_started) = [''a'', ''m'']"
    by code_simp
  then have d: "distinct (map fst (processes guard_started))"
    by simp
  have sick: "\<not> check_component_health deaf guard_started ''a''"
    by code_simp
  have failed: "fst (monitor_iteration deaf guard_registry guard_started) = [''m'']"
    by code_simp
  have alert: "fst (snd (monitor_iteration deaf guard_registry guard_started)) = Some [''m'']"
    by code_simp
  from critical_alert_never_for_always [OF d, of deaf guard_registry] failed
  have "\<not> check_component_health deaf guard_started ''m''"
    by auto
  with d keys sick failed alert show ?thesis
    by blast
qed

section \<open>Shutdown order\<close>

lemma stop_attempts_append [simp]:
  "stop_attempts (xs @ ys) = stop_attempts xs @ stop_attempts ys"
  by (induction xs) (auto simp: stop_attempts_def split: option.splits)

lemma stop_attempts_Nil [simp]: "stop_attempts [] = []"
  by (simp add: stop_attempts_def)

lemma stop_attempts_Cons [simp]:
  "stop_attempts (ev # evs) =
     (case stopping_name ev of None \<Rightarrow> stop_attempts evs | Some n \<Rightarrow> n # stop_attempts evs)"
  by (simp add: stop_attempts_def split: option.splits)

lemma stop_attempts_stop_component:
  "stop_attempts (log (snd (stop_component e st name)))
     = stop_attempts (log st) @ (if map_of (processes st) name = None then [] else [name])"
  by (auto simp: stop_component_def Let_def split: stop_result.splits)

lemma stop_attempts_fold:
  "distinct names \<Longrightarrow> \<forall>n\<in>set names. map_of (processes st) n \<noteq> None \<Longrightarrow>
   stop_attempts (log (fold (\<lambda>name s. snd (stop_component e s name)) names st))
     = stop_attempts (log st) @ names"
proof (induction names arbitrary: st)
  case Nil
  then show ?case by simp
next
  case (Cons name rest)
  let ?st = "snd (stop_component e st name)"
  have "map_of (processes ?st) n \<noteq> None" if "n \<in> set rest" for n
  proof -
    from that Cons.prems(1) have "n \<noteq> name" by auto
    from stop_component_entry_other [OF this, of e st] that Cons.prems(2) show ?thesis
      by simp
  qed
  then have "\<forall>n\<in>set rest. map_of (processes ?st) n \<noteq> None"
    by blast
  with Cons.IH [of ?st] Cons.prems(1)
  have "stop_attempts (log (fold (\<lambda>name s. snd (stop_component e s name)) rest ?st))
          = stop_attempts (log ?st) @ rest"
    by simp
  with Cons.prems(2) show ?case
    by (simp add: stop_attempts_stop_component)
qed

lemma stop_attempts_stop_all:
  assumes "distinct (map fst (processes st))"
  shows "stop_attempts (log (stop_all e st)) = stop_attempts (log st) @ rev (map fst (processes st))"
proof -
  have "\<forall>n\<in>set (rev (map fst (processes st))). map_of (processes (say [Print_stopping_all] st)) n \<noteq> None"
    by (auto simp: map_of_eq_None_iff)
  from stop_attempts_fold [OF _ this, of e] assms show ?thesis
    by (simp add: stop_all_def)
qed

lemma actual_start_sequence_append:
  "actual_start_sequence (xs @ ys) = foldl track_start (actual_start_sequence xs) ys"
  by (simp add: actual_start_sequence_def)

lemma sequence_check_deps [simp]:
  "actual_start_sequence (log (snd (check_deps e st name ds))) = actual_start_sequence (log st)"
  by (induction ds) (auto simp: actual_start_sequence_append)

lemma removeAll_snoc_fresh: "n \<notin> set xs \<Longrightarrow> removeAll n (xs @ [n]) = xs"
  by simp

lemma tracked_start_component:
  assumes "tracked st"
  shows "tracked (snd (start_component e reg st name))"
proof (cases "map_of (processes st) name = None")
  case False
  with assms show ?thesis
    by (simp add: start_component_def tracked_def actual_start_sequence_append)
next
  case True
  then have fresh: "name \<notin> set (map fst (processes st))"
    by (simp add: map_of_eq_None_iff)
  from assms True fresh show ?thesis
    by (auto simp: start_component_def tracked_def Let_def split_beta
        check_component_dependencies_def actual_start_sequence_append update_keys delete_keys
        split: option.splits spawn_result.splits)
qed

lemma tracked_stop_component:
  assumes "tracked st"
  shows "tracked (snd (stop_component e st name))"
  using assms
  by (auto simp: stop_component_def tracked_def Let_def actual_start_sequence_append delete_keys
      distinct_removeAll split: stop_result.splits)

lemma tracked_say_restarting [simp]:
  "tracked (say [Print_restarting name] st) = tracked st"
  by (simp add: tracked_def actual_start_sequence_append)

lemma tracked_bump_restart_count:
  "tracked st \<Longrightarrow> tracked (bump_restart_count st name)"
proof (cases "map_of (processes st) name")
  case None
  then show "tracked st \<Longrightarrow> ?thesis"
    by (simp add: bump_restart_count_def)
next
  case (Some info)
  then have "name \<in> set (map fst (processes st))"
    by (auto dest: map_of_SomeD intro: rev_image_eqI)
  then have "map fst (AList.update name v (processes st)) = map fst (processes st)" for v
    by (simp add: update_keys)
  with Some show "tracked st \<Longrightarrow> ?thesis"
    by (simp add: bump_restart_count_def tracked_def)
qed

lemma tracked_restart_component:
  "tracked st \<Longrightarrow> tracked (restart_component e reg st name)"
  by (simp add: restart_component_def Let_def tracked_start_component tracked_stop_component
      tracked_bump_restart_count)


lemma tracked_say_cong:
  "foldl track_start (actual_start_sequence (log st)) evs = actual_start_sequence (log st) \<Longrightarrow>
   tracked (say evs st) = tracked st"
  by (simp add: tracked_def actual_start_sequence_append)

lemma tracked_start_loop:
  "tracked st \<Longrightarrow> tracked (snd (start_loop e reg names failed st))"
proof (induction names arbitrary: failed st)
  case Nil
  then show ?case by simp
next
  case (Cons name rest)
  let ?st1 = "snd (start_component e reg (say [Print_starting name] st) name)"
  from Cons.prems have t1: "tracked ?st1"
    by (intro tracked_start_component) (simp add: tracked_say_cong)
  then have t2: "tracked (say [Print_waiting d] ?st1)" and t3: "tracked (say [Print_critical_abort name] ?st1)"
    for d
    by (simp_all add: tracked_say_cong)
  from Cons.prems t1 t2 t3 Cons.IH show ?case
    by (auto simp: Let_def split_beta split: option.splits)
qed

lemma tracked_get_startup_order:
  "tracked st \<Longrightarrow> tracked (snd (get_startup_order e reg st))"
proof -
  have a: "foldl track_start xs (map Info_optional_not_found ys) = xs" for xs ys
    by (induction ys) auto
  show "tracked st \<Longrightarrow> ?thesis"
    by (simp add: get_startup_order_def Let_def split_beta tracked_say_cong a)
qed

lemma tracked_start_all: "tracked st \<Longrightarrow> tracked (snd (start_all e reg st))"
proof -
  assume t: "tracked st"
  let ?ord = "fst (get_startup_order e reg st)"
  let ?r = "start_loop e reg ?ord [] (say [Info_startup_order ?ord] (snd (get_startup_order e reg st)))"
  from t have "tracked (say [Info_startup_order ?ord] (snd (get_startup_order e reg st)))"
    by (simp add: tracked_say_cong tracked_get_startup_order)
  then have tr: "tracked (snd ?r)"
    by (rule tracked_start_loop)
  then have "tracked (say ((if f \<noteq> [] then [Print_failed_to_start f] else [])
                            @ [Print_startup_completed]) (snd ?r))" for f
    by (simp add: tracked_say_cong)
  with tr show ?thesis
    by (cases "fst ?r") (simp_all add: start_all_def split_beta)
qed

lemma tracked_stop_fold:
  "tracked st \<Longrightarrow> tracked (fold (\<lambda>name s. snd (stop_component e s name)) names st)"
  by (induction names arbitrary: st) (simp_all add: tracked_stop_component)

lemma tracked_stop_all: "tracked st \<Longrightarrow> tracked (stop_all e st)"
  by (simp add: stop_all_def tracked_say_cong tracked_stop_fold)

lemma tracked_monitor_scan:
  "tracked st \<Longrightarrow> tracked (snd (snd (monitor_scan e reg names failed st)))"
proof (induction names arbitrary: failed st)
  case Nil
  then show ?case by simp
next
  case (Cons name rest)
  let ?st1 = "say [Warn_health_check_failed name] st"
  from Cons.prems have t1: "tracked ?st1"
    by (simp add: tracked_say_cong)
  then have t2: "tracked (restart_component e reg (say [Info_auto_restart_always name] ?st1) name)"
    and t3: "tracked (restart_component e reg (say [Info_auto_restart_on_failure name k] ?st1) name)"
    and t4: "tracked (say [Error_restart_limit name] ?st1)" for k
    by (simp_all add: tracked_say_cong tracked_restart_component)
  from Cons.prems t1 t2 t3 t4 Cons.IH show ?case
    by (auto simp: Let_def split: option.splits)
qed

lemma tracked_monitor_iteration:
  "tracked st \<Longrightarrow> tracked (snd (snd (monitor_iteration e reg st)))"
proof -
  assume t: "tracked st"
  let ?r = "monitor_scan e reg (map fst (processes st)) [] st"
  from t have tr: "tracked (snd (snd ?r))"
    by (rule tracked_monitor_scan)
  then have "tracked (say [Error_monitoring_loop] (snd (snd ?r)))"
    and "tracked (say [Critical_alert cs] (snd (snd ?r)))" for cs
    by (simp_all add: tracked_say_cong)
  with tr show ?thesis
    by (auto simp: monitor_iteration_def split_beta split: bool.splits option.splits)
qed

lemma tracked_apply_op: "tracked st \<Longrightarrow> tracked (apply_op reg st ope)"
  by (cases "(reg, st, ope)" rule: apply_op.cases)
     (simp_all add: tracked_start_component tracked_stop_component tracked_restart_component
        tracked_start_all tracked_stop_all tracked_monitor_iteration)

lemma tracked_foldl: "tracked st \<Longrightarrow> tracked (foldl (apply_op reg) st ops)"
  by (induction ops arbitrary: st) (simp_all add: tracked_apply_op)

lemma tracked_run: "tracked (run reg ops)"
  unfolding run_def
  by (rule tracked_foldl) (simp add: tracked_def init_orch_def actual_start_sequence_def)

lemma sequence_needs_start:
  "n \<in> set (foldl track_start xs evs) \<Longrightarrow>
   n \<in> set xs \<or> Info_started n \<in> set evs \<or> (\<exists>d. Info_waiting n d \<in> set evs)"
proof (induction evs arbitrary: xs)
  case Nil
  then show ?case by simp
next
  case (Cons ev evs)
  from Cons.IH [OF Cons.prems [simplified]]
  have "n \<in> set (track_start xs ev) \<or> Info_started n \<in> set evs
        \<or> (\<exists>d. Info_waiting n d \<in> set evs)" .
  moreover have "n \<in> set xs \<or> ev = Info_started n \<or> (\<exists>d. ev = Info_waiting n d)"
    if "n \<in> set (track_start xs ev)"
    using that by (cases "(xs, ev)" rule: track_start.cases) (auto split: if_splits)
  ultimately show ?case
    by auto
qed

text \<open>
  C8. After any run of supervisor operations from the initial state, \<^verbatim>\<open>stop_all\<close> attempts
  to stop the components in exactly the reverse of the order in which the running instances
  were actually started, whatever the stops do (a stop that raises does not keep the later
  ones from being attempted). That sequence lists every component of the running map once,
  and a component that was never started is not in it.
\<close>

theorem shutdown_reverses_actual_start_order:
  "stop_attempts (log (stop_all e (run reg ops)))
     = stop_attempts (log (run reg ops)) @ rev (actual_start_sequence (log (run reg ops)))
   \<and> distinct (actual_start_sequence (log (run reg ops)))
   \<and> set (actual_start_sequence (log (run reg ops))) = fst ` set (processes (run reg ops))
   \<and> (\<forall>n. Info_started n \<notin> set (log (run reg ops))
            \<and> (\<forall>d. Info_waiting n d \<notin> set (log (run reg ops))) \<longrightarrow>
          n \<notin> set (actual_start_sequence (log (run reg ops))))"
proof -
  let ?st = "run reg ops"
  have t: "tracked ?st"
    by (rule tracked_run)
  then have d: "distinct (map fst (processes ?st))"
    and eq: "actual_start_sequence (log ?st) = map fst (processes ?st)"
    by (simp_all add: tracked_def)
  have a: "stop_attempts (log (stop_all e ?st))
             = stop_attempts (log ?st) @ rev (actual_start_sequence (log ?st))"
    using stop_attempts_stop_all [OF d, of e] eq by simp
  have never: "n \<notin> set (actual_start_sequence (log ?st))"
    if "Info_started n \<notin> set (log ?st) \<and> (\<forall>d. Info_waiting n d \<notin> set (log ?st))" for n
    using that sequence_needs_start [of n "[]" "log ?st"]
    by (auto simp: actual_start_sequence_def)
  from a d eq never show ?thesis
    by (intro conjI allI impI) simp_all
qed

theorem shutdown_reverses_actual_start_order_witness:
  "fst (get_startup_order calm abc_registry init_orch) = [''A'', ''B'', ''C'']
   \<and> actual_start_sequence (log (run abc_registry abc_ops)) = [''B'', ''C'', ''A'']
   \<and> stop_attempts (log (stop_all c_jams (run abc_registry abc_ops)))
       = stop_attempts (log (run abc_registry abc_ops)) @ [''A'', ''C'', ''B'']
   \<and> map fst (processes (stop_all c_jams (run abc_registry abc_ops))) = [''C'']
   \<and> ''D'' \<notin> set (actual_start_sequence (log (run abc_registry abc_ops)))"
proof -
  have plan: "fst (get_startup_order calm abc_registry init_orch) = [''A'', ''B'', ''C'']"
    by code_simp
  have lg: "log (run abc_registry abc_ops) =
      [Info_startup_order [''A'', ''B'', ''C''],
       Print_starting ''A'', Info_starting_component ''A'', Info_started ''A'',
       Print_starting ''B'', Info_starting_component ''B'', Info_started ''B'',
       Print_starting ''C'', Info_starting_component ''C'', Info_started ''C'',
       Print_startup_completed,
       Print_restarting ''A'', Info_stopping ''A'', Info_stopped ''A'',
       Info_starting_component ''A'', Info_started ''A'']"
    by code_simp
  have sq: "actual_start_sequence (log (run abc_registry abc_ops)) = [''B'', ''C'', ''A'']"
    unfolding lg by (simp add: actual_start_sequence_def)
  have left: "map fst (processes (stop_all c_jams (run abc_registry abc_ops))) = [''C'']"
    by code_simp
  have h: "Info_started ''D'' \<notin> set (log (run abc_registry abc_ops))
           \<and> (\<forall>d. Info_waiting ''D'' d \<notin> set (log (run abc_registry abc_ops)))"
    unfolding lg by simp
  note t = shutdown_reverses_actual_start_order [of c_jams abc_registry abc_ops]
  from t sq have a: "stop_attempts (log (stop_all c_jams (run abc_registry abc_ops)))
       = stop_attempts (log (run abc_registry abc_ops)) @ [''A'', ''C'', ''B'']"
    by simp
  from t h have "''D'' \<notin> set (actual_start_sequence (log (run abc_registry abc_ops)))"
    by blast
  with plan sq a left show ?thesis
    by blast
qed

end
